theory Spec2Isabelle
  imports Complex_Main "HOL-Library.Word" "HOL-Library.Log_Nat"
begin

section \<open>Single-precision arithmetic\<close>

text \<open>
  Every duty, voltage and threshold of \<^verbatim>\<open>MCPWM_Test_Temp.h\<close> is a C++ \<^verbatim>\<open>float\<close>, and the
  ESP32 computes on it in IEEE-754 binary32, rounding each result to the nearest value with ties
  to even. A finite binary32 value is a rational number, so the model computes on \<open>rat\<close> and
  rounds after every operation of the source. Infinities, NaN and the sign of zero are not
  modelled: every caller in the repository passes a finite constant as target, and no operation
  of the ramp can overflow on finite operands.
\<close>

type_synonym f32 = rat

definition ilog2 :: "rat \<Rightarrow> int" where
  "ilog2 x = (let (p, q) = quotient_of \<bar>x\<bar>; d = bitlen p - bitlen q
              in if 2 powi d \<le> \<bar>x\<bar> then d else d - 1)"

definition expo :: "rat \<Rightarrow> int" where
  "expo x = max (- 126) (ilog2 x)"

definition ulp :: "rat \<Rightarrow> rat" where
  "ulp x = 2 powi (expo x - 23)"

definition rne :: "rat \<Rightarrow> int" where
  "rne x = (let f = \<lfloor>x\<rfloor>; d = x - of_int f
            in if d < 1 / 2 then f else if 1 / 2 < d then f + 1
               else if even f then f else f + 1)"

definition rnd32 :: "rat \<Rightarrow> f32" where
  "rnd32 x = (if x = 0 then 0 else of_int (rne (x / ulp x)) * ulp x)"

definition is_f32 :: "rat \<Rightarrow> bool" where
  "is_f32 x \<longleftrightarrow> rnd32 x = x"

definition fadd :: "f32 \<Rightarrow> f32 \<Rightarrow> f32" where
  "fadd x y = rnd32 (x + y)"

definition fsub :: "f32 \<Rightarrow> f32 \<Rightarrow> f32" where
  "fsub x y = rnd32 (x - y)"

definition fmul :: "f32 \<Rightarrow> f32 \<Rightarrow> f32" where
  "fmul x y = rnd32 (x * y)"

definition fdiv :: "f32 \<Rightarrow> f32 \<Rightarrow> f32" where
  "fdiv x y = rnd32 (x / y)"

definition fabsf :: "f32 \<Rightarrow> f32" where
  "fabsf x = \<bar>x\<bar>"

definition ceilf :: "f32 \<Rightarrow> f32" where
  "ceilf x = of_int \<lceil>x\<rceil>"

definition int_to_float :: "int \<Rightarrow> f32" where
  "int_to_float i = rnd32 (of_int i)"

text \<open>
  \<^verbatim>\<open>static_cast<int>(x)\<close> truncates towards zero; outside the range of a 32-bit \<^verbatim>\<open>int\<close> the
  conversion is undefined, which the model returns as \<open>None\<close>.
\<close>

definition float_to_int :: "f32 \<Rightarrow> int option" where
  "float_to_int x =
     (let t = (if 0 \<le> x then \<lfloor>x\<rfloor> else \<lceil>x\<rceil>)
      in if - (2 ^ 31) \<le> t \<and> t < 2 ^ 31 then Some t else None)"

section \<open>Configuration constants\<close>

abbreviation (input) MAX_SLEW_STEP_PCT :: f32 where "MAX_SLEW_STEP_PCT \<equiv> 3"
abbreviation (input) SLEW_STEP_MS :: nat where "SLEW_STEP_MS \<equiv> 18"
abbreviation (input) COAST_BEFORE_JUMP_PCT :: f32 where "COAST_BEFORE_JUMP_PCT \<equiv> 12"
abbreviation (input) COAST_BEFORE_JUMP_MS :: nat where "COAST_BEFORE_JUMP_MS \<equiv> 90"
abbreviation (input) COAST_AFTER_JUMP_MS :: nat where "COAST_AFTER_JUMP_MS \<equiv> 60"
abbreviation (input) VDIV_RATIO :: f32 where "VDIV_RATIO \<equiv> 11"
abbreviation (input) VBUS_OV_LIMIT_VOLTS :: f32 where "VBUS_OV_LIMIT_VOLTS \<equiv> 28"
abbreviation (input) VBUS_CLEAR_HYS_VOLTS :: f32 where "VBUS_CLEAR_HYS_VOLTS \<equiv> 53 / 2"
abbreviation (input) LOW :: int where "LOW \<equiv> 0"
abbreviation (input) HIGH :: int where "HIGH \<equiv> 1"

abbreviation (input) WARMUP_MS :: "32 word" where "WARMUP_MS \<equiv> 30000"
abbreviation (input) STEP_BLOCK_MS :: "32 word" where "STEP_BLOCK_MS \<equiv> 240000"
abbreviation (input) STEP_HOLD_MS :: nat where "STEP_HOLD_MS \<equiv> 500"
abbreviation (input) BURST_BLOCK_MS :: "32 word" where "BURST_BLOCK_MS \<equiv> 240000"
abbreviation (input) BURST_ON_MS :: nat where "BURST_ON_MS \<equiv> 320"
abbreviation (input) BURST_COAST_MS :: nat where "BURST_COAST_MS \<equiv> 120"
abbreviation (input) SOAK_MS :: "32 word" where "SOAK_MS \<equiv> 600000"
abbreviation (input) GAP_MS :: nat where "GAP_MS \<equiv> 1200"
abbreviation (input) WARMUP_DUTY :: f32 where "WARMUP_DUTY \<equiv> 42"
abbreviation (input) STEP_LOW :: f32 where "STEP_LOW \<equiv> 35"
abbreviation (input) STEP_HIGH :: f32 where "STEP_HIGH \<equiv> 75"
abbreviation (input) BURST_DUTY :: f32 where "BURST_DUTY \<equiv> 88"
abbreviation (input) SOAK_DUTY :: f32 where "SOAK_DUTY \<equiv> 68"

text \<open>
  The pin numbers and the fault polarity are \<^verbatim>\<open>constexpr\<close> constants of the header, and
  \<^verbatim>\<open>CONFIG_IDF_TARGET_ESP32S3\<close> is a macro of the build. The model takes them as a record, so
  that the enabled interlocks can be studied as well as the shipped values.
\<close>

record config =
  FAULT_PIN :: int
  FAULT_ACTIVE_LOW :: bool
  SUPPLY_ADC_PIN :: int
  IDF_TARGET_ESP32S3 :: bool

definition shipped :: "bool \<Rightarrow> config" where
  "shipped s3 = \<lparr>FAULT_PIN = - 1, FAULT_ACTIVE_LOW = True, SUPPLY_ADC_PIN = - 1,
                 IDF_TARGET_ESP32S3 = s3\<rparr>"

section \<open>The board: clock, inputs and the calls made on the backend\<close>

text \<open>
  \<open>Coast\<close> and \<open>Drive p\<close> are the calls of the two callables handed to the templates,
  \<open>Delay ms\<close> is a call of \<^verbatim>\<open>delay\<close>. The clock is the 32-bit millisecond counter behind
  \<^verbatim>\<open>millis()\<close>; time passes in \<^verbatim>\<open>delay\<close> only. The \<open>k\<close>-th \<^verbatim>\<open>digitalRead\<close> of the fault
  pin returns \<open>pin_in k\<close> and the \<open>k\<close>-th conversion of the ADC returns \<open>adc_in k\<close>. The
  diagnostic output on \<^verbatim>\<open>Serial\<close> is left out.
\<close>

datatype event = Coast | Drive f32 | Delay nat

record world =
  clock :: "32 word"
  pin_in :: "nat \<Rightarrow> int"
  pin_k :: nat
  adc_in :: "nat \<Rightarrow> 32 word"
  adc_k :: nat
  trace :: "event list"

definition millis :: "world \<Rightarrow> 32 word" where
  "millis w = clock w"

definition delay :: "nat \<Rightarrow> world \<Rightarrow> world" where
  "delay ms w = w\<lparr>clock := clock w + of_nat ms, trace := trace w @ [Delay ms]\<rparr>"

definition coast :: "world \<Rightarrow> world" where
  "coast w = w\<lparr>trace := trace w @ [Coast]\<rparr>"

definition drive :: "f32 \<Rightarrow> world \<Rightarrow> world" where
  "drive pct w = w\<lparr>trace := trace w @ [Drive pct]\<rparr>"

definition digitalRead :: "world \<Rightarrow> int \<times> world" where
  "digitalRead w = (pin_in w (pin_k w), w\<lparr>pin_k := Suc (pin_k w)\<rparr>)"

definition analogRead :: "world \<Rightarrow> 32 word \<times> world" where
  "analogRead w = (adc_in w (adc_k w), w\<lparr>adc_k := Suc (adc_k w)\<rparr>)"

section \<open>Helpers of the header and of MCPWM_Test_Temp.cpp\<close>

definition clampPct :: "f32 \<Rightarrow> f32" where
  "clampPct p = (if p < 0 then 0 else if 100 < p then 100 else p)"

text \<open>
  The conversion of one ADC sample to volts, as \<^verbatim>\<open>readVbusVolts\<close> computes it: from the
  unsigned millivolts of \<^verbatim>\<open>analogReadMilliVolts\<close> on the ESP32-S3, from the \<^verbatim>\<open>int\<close> count of
  \<^verbatim>\<open>analogRead\<close> otherwise.
\<close>

definition volts :: "config \<Rightarrow> 32 word \<Rightarrow> f32" where
  "volts cfg s =
     (if IDF_TARGET_ESP32S3 cfg
      then fmul (fdiv (int_to_float (uint s)) 1000) VDIV_RATIO
      else (let mv = fmul (fdiv (int_to_float (sint s)) 4095) 1100
            in fmul (fdiv mv 1000) VDIV_RATIO))"

definition readVbusVolts :: "config \<Rightarrow> world \<Rightarrow> f32 \<times> world" where
  "readVbusVolts cfg w =
     (if SUPPLY_ADC_PIN cfg < 0 then (- 1, w)
      else (let (s, w') = analogRead w in (volts cfg s, w')))"

definition faultActive :: "config \<Rightarrow> world \<Rightarrow> bool \<times> world" where
  "faultActive cfg w =
     (if FAULT_PIN cfg < 0 then (False, w)
      else (let (v, w') = digitalRead w
            in ((if FAULT_ACTIVE_LOW cfg then v = LOW else v = HIGH), w')))"

text \<open>The two backends clamp the duty once more before it reaches the peripheral.\<close>

definition backend_duty :: "f32 \<Rightarrow> f32" where
  "backend_duty pct = clampPct pct"

section \<open>The over-voltage guard\<close>

text \<open>
  The \<^verbatim>\<open>while (millis() - t0 < 3000U)\<close> loop of \<^verbatim>\<open>guardOverVoltage\<close>; it returns the last
  value of \<^verbatim>\<open>vb\<close>, which the source prints.
\<close>

function ov_wait :: "config \<Rightarrow> 32 word \<Rightarrow> f32 \<Rightarrow> world \<Rightarrow> f32 \<times> world" where
  "ov_wait cfg t0 vb w =
     (if millis w - t0 < 3000
      then (let r = readVbusVolts cfg w; vb' = fst r; w1 = snd r
            in if 0 \<le> vb' \<and> vb' < VBUS_CLEAR_HYS_VOLTS then (vb', w1)
               else ov_wait cfg t0 vb' (delay 10 w1))
      else (vb, w))"
  by pat_completeness auto
termination
proof (relation "measure (\<lambda>(cfg, t0, vb, w). 3000 - unat (clock w - t0))", goal_cases)
  case 1
  show ?case by simp
next
  case (2 cfg t0 vb w r vb' w1)
  have same: "clock (snd (readVbusVolts cfg w)) = clock w"
    by (simp add: readVbusVolts_def analogRead_def split: prod.splits)
  from 2 have lt: "clock w - t0 < 3000" and c1: "clock w1 = clock w"
    by (simp_all add: millis_def same)
  from lt have a: "unat (clock w - t0) < 3000"
    by (simp add: word_less_nat_alt)
  have e: "clock w + 10 - t0 = (clock w - t0) + 10" by simp
  from a have "unat ((clock w - t0) + 10) = unat (clock w - t0) + 10"
    by (simp add: unat_add_lem [THEN iffD1])
  then have "unat (clock w + 10 - t0) = unat (clock w - t0) + 10"
    by (simp only: e)
  with a have "3000 - unat (clock w + 10 - t0) < 3000 - unat (clock w - t0)"
    by linarith
  with c1 show ?case by (simp add: delay_def)
qed

declare ov_wait.simps [simp del]

definition guardOverVoltage :: "config \<Rightarrow> world \<Rightarrow> bool \<times> world" where
  "guardOverVoltage cfg w =
     (if SUPPLY_ADC_PIN cfg < 0 then (False, w)
      else (let (vb, w1) = readVbusVolts cfg w
            in if 0 \<le> vb \<and> VBUS_OV_LIMIT_VOLTS < vb
               then (let w2 = coast w1; t0 = millis w2; (vb', w3) = ov_wait cfg t0 vb w2
                     in (True, w3))
               else (False, w1)))"

section \<open>The safe ramp\<close>

text \<open>
  The \<^verbatim>\<open>for\<close> loop of \<^verbatim>\<open>safeRampTo\<close> with \<open>n\<close> iterations left. The flag of the result tells
  whether the loop ran to its end; it is \<open>False\<close> after one of the two early returns.
\<close>

fun ramp_loop :: "config \<Rightarrow> nat \<Rightarrow> f32 \<Rightarrow> f32 \<Rightarrow> world \<Rightarrow> bool \<times> f32 \<times> world" where
  "ramp_loop cfg 0 stepSize lastPct w = (True, lastPct, w)"
| "ramp_loop cfg (Suc n) stepSize lastPct w =
     (let lastPct1 = fadd lastPct stepSize; (f, w1) = faultActive cfg w
      in if f then (False, lastPct1, coast w1)
         else (let (ov, w2) = guardOverVoltage cfg w1
               in if ov then (False, 0, w2)
                  else ramp_loop cfg n stepSize lastPct1
                         (delay SLEW_STEP_MS (drive lastPct1 w2))))"

definition safeRampTo :: "config \<Rightarrow> f32 \<Rightarrow> f32 \<Rightarrow> world \<Rightarrow> (f32 \<times> world) option" where
  "safeRampTo cfg lastPct targetPct0 w =
     (let targetPct = clampPct targetPct0;
          delta = fsub targetPct lastPct;
          (f, w1) = faultActive cfg w
      in if f then Some (lastPct, coast w1)
         else (let (ov, w2) = guardOverVoltage cfg w1
               in if ov then Some (0, w2)
                  else (let w3 = (if COAST_BEFORE_JUMP_PCT \<le> fabsf delta
                                  then delay COAST_BEFORE_JUMP_MS (coast w2) else w2)
                        in case float_to_int (ceilf (fdiv (fabsf delta) MAX_SLEW_STEP_PCT)) of
                             None \<Rightarrow> None
                           | Some steps0 \<Rightarrow>
                               (let steps = (if steps0 < 1 then 1 else steps0);
                                    stepSize = fdiv delta (int_to_float steps);
                                    (fin, lastPct', w4) = ramp_loop cfg (nat steps) stepSize lastPct w3
                                in if \<not> fin then Some (lastPct', w4)
                                   else Some (lastPct',
                                          if COAST_BEFORE_JUMP_PCT \<le> fabsf delta
                                          then delay COAST_AFTER_JUMP_MS (coast w4) else w4)))))"

section \<open>The phases\<close>

text \<open>
  The \<^verbatim>\<open>while\<close> loops of \<^verbatim>\<open>do_warmup\<close>, \<^verbatim>\<open>do_step_load\<close>, \<^verbatim>\<open>do_bursts\<close> and \<^verbatim>\<open>do_soak\<close>, with
  \<^verbatim>\<open>t0\<close> as an argument, and the four routines. A loop runs as long as the clock says and may
  not return, so it is a partial function; its result is \<open>None\<close> also when a ramp hits the
  undefined conversion. The flag of the result tells whether the loop was left by
  \<^verbatim>\<open>break\<close>.
\<close>

partial_function (option) warmup_loop ::
  "config \<Rightarrow> 32 word \<Rightarrow> f32 \<Rightarrow> world \<Rightarrow> (bool \<times> f32 \<times> world) option" where
  "warmup_loop cfg t0 lastPct w =
     (if millis w - t0 < WARMUP_MS
      then (case safeRampTo cfg lastPct WARMUP_DUTY w of
              None \<Rightarrow> None
            | Some (lastPct', w1) \<Rightarrow>
                (case faultActive cfg w1 of
                   (f, w2) \<Rightarrow>
                     if f then Some (True, lastPct', coast w2)
                     else warmup_loop cfg t0 lastPct' (delay 10 w2)))
      else Some (False, lastPct, w))"

definition do_warmup :: "config \<Rightarrow> f32 \<Rightarrow> world \<Rightarrow> (bool \<times> f32 \<times> world) option" where
  "do_warmup cfg lastPct w =
     (case warmup_loop cfg (millis w) lastPct w of
        None \<Rightarrow> None
      | Some (brk, lastPct', w1) \<Rightarrow> Some (brk, lastPct', delay BURST_COAST_MS (coast w1)))"

partial_function (option) step_load_loop ::
  "config \<Rightarrow> 32 word \<Rightarrow> bool \<Rightarrow> f32 \<Rightarrow> world \<Rightarrow> (bool \<times> f32 \<times> world) option" where
  "step_load_loop cfg t0 hi lastPct w =
     (if millis w - t0 < STEP_BLOCK_MS
      then (case safeRampTo cfg lastPct (if hi then STEP_HIGH else STEP_LOW) w of
              None \<Rightarrow> None
            | Some (lastPct', w1) \<Rightarrow>
                (case faultActive cfg w1 of
                   (f, w2) \<Rightarrow>
                     if f then Some (True, lastPct', coast w2)
                     else step_load_loop cfg t0 (\<not> hi) lastPct' (delay STEP_HOLD_MS w2)))
      else Some (False, lastPct, w))"

definition do_step_load :: "config \<Rightarrow> f32 \<Rightarrow> world \<Rightarrow> (bool \<times> f32 \<times> world) option" where
  "do_step_load cfg lastPct w =
     (case step_load_loop cfg (millis w) False lastPct w of
        None \<Rightarrow> None
      | Some (brk, lastPct', w1) \<Rightarrow> Some (brk, lastPct', delay BURST_COAST_MS (coast w1)))"

partial_function (option) bursts_loop ::
  "config \<Rightarrow> 32 word \<Rightarrow> f32 \<Rightarrow> world \<Rightarrow> (bool \<times> f32 \<times> world) option" where
  "bursts_loop cfg t0 lastPct w =
     (if millis w - t0 < BURST_BLOCK_MS
      then (case safeRampTo cfg lastPct BURST_DUTY (delay BURST_COAST_MS (coast w)) of
              None \<Rightarrow> None
            | Some (lastPct', w1) \<Rightarrow>
                (case faultActive cfg w1 of
                   (f, w2) \<Rightarrow>
                     if f then Some (True, lastPct', coast w2)
                     else bursts_loop cfg t0 lastPct' (delay BURST_ON_MS w2)))
      else Some (False, lastPct, w))"

definition do_bursts :: "config \<Rightarrow> f32 \<Rightarrow> world \<Rightarrow> (bool \<times> f32 \<times> world) option" where
  "do_bursts cfg lastPct w =
     (case bursts_loop cfg (millis w) lastPct w of
        None \<Rightarrow> None
      | Some (brk, lastPct', w1) \<Rightarrow> Some (brk, lastPct', delay BURST_COAST_MS (coast w1)))"

partial_function (option) soak_loop ::
  "config \<Rightarrow> 32 word \<Rightarrow> f32 \<Rightarrow> world \<Rightarrow> (bool \<times> f32 \<times> world) option" where
  "soak_loop cfg t0 lastPct w =
     (if millis w - t0 < SOAK_MS
      then (case safeRampTo cfg lastPct SOAK_DUTY w of
              None \<Rightarrow> None
            | Some (lastPct', w1) \<Rightarrow>
                (case faultActive cfg w1 of
                   (f, w2) \<Rightarrow>
                     if f then Some (True, lastPct', coast w2)
                     else soak_loop cfg t0 lastPct' (delay 20 w2)))
      else Some (False, lastPct, w))"

definition do_soak :: "config \<Rightarrow> f32 \<Rightarrow> world \<Rightarrow> (bool \<times> f32 \<times> world) option" where
  "do_soak cfg lastPct w =
     (case soak_loop cfg (millis w) lastPct w of
        None \<Rightarrow> None
      | Some (brk, lastPct', w1) \<Rightarrow> Some (brk, lastPct', delay GAP_MS (coast w1)))"

section \<open>What a trace shows\<close>

fun drives :: "event list \<Rightarrow> f32 list" where
  "drives [] = []"
| "drives (Drive p # es) = p # drives es"
| "drives (e # es) = drives es"

fun coasts :: "event list \<Rightarrow> nat" where
  "coasts [] = 0"
| "coasts (Coast # es) = Suc (coasts es)"
| "coasts (e # es) = coasts es"

fun step_events :: "f32 list \<Rightarrow> event list" where
  "step_events [] = []"
| "step_events (p # ps) = Drive p # Delay SLEW_STEP_MS # step_events ps"

section \<open>The inputs seen from a state of the board\<close>

text \<open>
  \<open>fault_at cfg w k\<close> tells whether the \<open>k\<close>-th call of \<^verbatim>\<open>faultActive()\<close> from \<open>w\<close> on
  returns true, and \<open>vbus_at cfg w k\<close> is the voltage that the \<open>k\<close>-th call of
  \<^verbatim>\<open>readVbusVolts()\<close> returns when the sensor is enabled; \<open>ov_at\<close> compares it with the trip
  threshold and \<open>clear_at\<close> with the test that leaves the wait loop. \<open>quiet cfg w n\<close>: neither
  interlock fires at the entry check (number 0) or at the re-checks of the iterations 1 to
  \<open>n\<close>.
\<close>

definition fault_at :: "config \<Rightarrow> world \<Rightarrow> nat \<Rightarrow> bool" where
  "fault_at cfg w k \<longleftrightarrow>
     0 \<le> FAULT_PIN cfg \<and>
     (if FAULT_ACTIVE_LOW cfg then pin_in w (pin_k w + k) = LOW
      else pin_in w (pin_k w + k) = HIGH)"

definition vbus_at :: "config \<Rightarrow> world \<Rightarrow> nat \<Rightarrow> f32" where
  "vbus_at cfg w k = volts cfg (adc_in w (adc_k w + k))"

definition ov_at :: "config \<Rightarrow> world \<Rightarrow> nat \<Rightarrow> bool" where
  "ov_at cfg w k \<longleftrightarrow> 0 \<le> SUPPLY_ADC_PIN cfg \<and> VBUS_OV_LIMIT_VOLTS < vbus_at cfg w k"

definition ov_clear :: "f32 \<Rightarrow> bool" where
  "ov_clear vb \<longleftrightarrow> 0 \<le> vb \<and> vb < VBUS_CLEAR_HYS_VOLTS"

definition quiet :: "config \<Rightarrow> world \<Rightarrow> nat \<Rightarrow> bool" where
  "quiet cfg w n = list_all (\<lambda>k. \<not> fault_at cfg w k \<and> \<not> ov_at cfg w k) [0..<Suc n]"

text \<open>The board after one call of \<^verbatim>\<open>faultActive()\<close>, and after one reading of the voltage.\<close>

definition adv_pin :: "config \<Rightarrow> nat \<Rightarrow> world \<Rightarrow> world" where
  "adv_pin cfg m w = (if FAULT_PIN cfg < 0 then w else w\<lparr>pin_k := pin_k w + m\<rparr>)"

definition adv_adc :: "config \<Rightarrow> nat \<Rightarrow> world \<Rightarrow> world" where
  "adv_adc cfg m w = (if SUPPLY_ADC_PIN cfg < 0 then w else w\<lparr>adc_k := adc_k w + m\<rparr>)"

text \<open>
  The quantities that \<^verbatim>\<open>safeRampTo\<close> derives from LastCommandedDuty \<open>L\<close> and the target
  \<open>T\<close>: \<^verbatim>\<open>delta\<close>, \<^verbatim>\<open>steps\<close> (when the conversion to \<^verbatim>\<open>int\<close> is defined) and
  \<^verbatim>\<open>stepSize\<close>; the duties of the successive iterations, and the value of \<^verbatim>\<open>lastPct\<close>
  after \<open>n\<close> of them.
\<close>

definition ramp_delta :: "f32 \<Rightarrow> f32 \<Rightarrow> f32" where
  "ramp_delta L T = fsub (clampPct T) L"

definition ramp_steps :: "f32 \<Rightarrow> f32 \<Rightarrow> nat" where
  "ramp_steps L T =
     (let c = \<lceil>fdiv (fabsf (ramp_delta L T)) MAX_SLEW_STEP_PCT\<rceil>
      in nat (if c < 1 then 1 else c))"

definition ramp_stepSize :: "f32 \<Rightarrow> f32 \<Rightarrow> f32" where
  "ramp_stepSize L T = fdiv (ramp_delta L T) (int_to_float (int (ramp_steps L T)))"

fun ramp_vals :: "nat \<Rightarrow> f32 \<Rightarrow> f32 \<Rightarrow> f32 list" where
  "ramp_vals 0 x s = []"
| "ramp_vals (Suc n) x s = fadd x s # ramp_vals n (fadd x s) s"

fun ramp_end :: "nat \<Rightarrow> f32 \<Rightarrow> f32 \<Rightarrow> f32" where
  "ramp_end 0 x s = x"
| "ramp_end (Suc n) x s = ramp_end n (fadd x s) s"

definition jump :: "f32 \<Rightarrow> bool" where
  "jump delta \<longleftrightarrow> COAST_BEFORE_JUMP_PCT \<le> fabsf delta"

text \<open>
  The events and the milliseconds of the coast bracket around a large change, and of a whole
  ramp that nothing interrupts. \<open>stepped cfg m ms evs w\<close> is the board \<open>w\<close> after \<open>m\<close> checks
  of both interlocks that did not fire, \<open>ms\<close> milliseconds of delay and the calls \<open>evs\<close>.
  \<open>cast_ok\<close>: the step count fits the \<^verbatim>\<open>int\<close> it is converted to.
\<close>

definition jump_open :: "f32 \<Rightarrow> event list" where
  "jump_open delta = (if jump delta then [Coast, Delay COAST_BEFORE_JUMP_MS] else [])"

definition jump_close :: "f32 \<Rightarrow> event list" where
  "jump_close delta = (if jump delta then [Coast, Delay COAST_AFTER_JUMP_MS] else [])"

definition jump_open_ms :: "f32 \<Rightarrow> nat" where
  "jump_open_ms delta = (if jump delta then COAST_BEFORE_JUMP_MS else 0)"

definition jump_close_ms :: "f32 \<Rightarrow> nat" where
  "jump_close_ms delta = (if jump delta then COAST_AFTER_JUMP_MS else 0)"

definition stepped :: "config \<Rightarrow> nat \<Rightarrow> nat \<Rightarrow> event list \<Rightarrow> world \<Rightarrow> world" where
  "stepped cfg m ms evs w =
     (adv_adc cfg m (adv_pin cfg m w))\<lparr>clock := clock w + of_nat ms, trace := trace w @ evs\<rparr>"

definition cast_ok :: "f32 \<Rightarrow> f32 \<Rightarrow> bool" where
  "cast_ok L T \<longleftrightarrow>
     (let c = \<lceil>fdiv (fabsf (ramp_delta L T)) MAX_SLEW_STEP_PCT\<rceil> in - (2 ^ 31) \<le> c \<and> c < 2 ^ 31)"

definition ramp_events :: "f32 \<Rightarrow> f32 \<Rightarrow> event list" where
  "ramp_events L T =
     jump_open (ramp_delta L T)
     @ step_events (ramp_vals (ramp_steps L T) L (ramp_stepSize L T))
     @ jump_close (ramp_delta L T)"

definition ramp_ms :: "f32 \<Rightarrow> f32 \<Rightarrow> nat" where
  "ramp_ms L T =
     jump_open_ms (ramp_delta L T) + SLEW_STEP_MS * ramp_steps L T
     + jump_close_ms (ramp_delta L T)"

text \<open>The board after a trip: the coast, then \<open>m\<close> polls of 10 ms, \<open>j\<close> readings in all.\<close>

definition tripped :: "nat \<Rightarrow> nat \<Rightarrow> world \<Rightarrow> world" where
  "tripped j m w =
     w\<lparr>clock := clock w + of_nat (10 * m), adc_k := adc_k w + j,
       trace := trace w @ Coast # replicate m (Delay 10)\<rparr>"

text \<open>Boards and configurations for concrete runs.\<close>

definition board :: "(nat \<Rightarrow> int) \<Rightarrow> (nat \<Rightarrow> 32 word) \<Rightarrow> world" where
  "board pins adc = \<lparr>clock = 0, pin_in = pins, pin_k = 0, adc_in = adc, adc_k = 0, trace = []\<rparr>"

definition armed :: config where
  "armed = \<lparr>FAULT_PIN = 40, FAULT_ACTIVE_LOW = True, SUPPLY_ADC_PIN = 4,
             IDF_TARGET_ESP32S3 = True\<rparr>"

definition armed_raw :: config where
  "armed_raw = armed\<lparr>IDF_TARGET_ESP32S3 := False\<rparr>"

definition bench :: world where
  "bench = board (\<lambda>k. HIGH) (\<lambda>k. 0)"



section \<open>Traces\<close>

lemma drives_append [simp]: "drives (xs @ ys) = drives xs @ drives ys"
  by (induction xs rule: drives.induct) simp_all

lemma coasts_append [simp]: "coasts (xs @ ys) = coasts xs + coasts ys"
  by (induction xs rule: coasts.induct) simp_all

lemma drives_step_events [simp]: "drives (step_events ps) = ps"
  by (induction ps) simp_all

lemma coasts_step_events [simp]: "coasts (step_events ps) = 0"
  by (induction ps) simp_all

lemma step_events_append [simp]: "step_events (ps @ qs) = step_events ps @ step_events qs"
  by (induction ps) simp_all

lemma length_ramp_vals [simp]: "length (ramp_vals n x s) = n"
  by (induction n arbitrary: x) simp_all

section \<open>Rounding\<close>

lemma rne_err: "\<bar>of_int (rne y) - y\<bar> \<le> 1 / 2"
proof -
  have "of_int \<lfloor>y\<rfloor> \<le> y" "y < of_int \<lfloor>y\<rfloor> + 1" by linarith+
  then show ?thesis
    by (auto simp: rne_def Let_def abs_le_iff)
qed

lemma rne_of_int [simp]: "rne (of_int m) = m"
  by (simp add: rne_def)

lemma ilog2_le:
  assumes "x \<noteq> 0"
  shows "2 powi (ilog2 x) \<le> \<bar>x\<bar>"
proof -
  obtain p q where pq: "quotient_of \<bar>x\<bar> = (p, q)" by (cases "quotient_of \<bar>x\<bar>")
  then have q: "0 < q" and x: "\<bar>x\<bar> = of_int p / of_int q"
    by (auto simp: quotient_of_denom_pos quotient_of_div)
  from assms have "0 < \<bar>x\<bar>" by simp
  with x have "(0::rat) < of_int p / of_int q" by simp
  with q have p: "0 < p" by (simp add: zero_less_divide_iff)
  let ?d = "bitlen p - bitlen q"
  show ?thesis
  proof (cases "2 powi ?d \<le> \<bar>x\<bar>")
    case True
    then show ?thesis by (simp add: ilog2_def pq)
  next
    case False
    have bp: "2 ^ nat (bitlen p - 1) \<le> p" using bitlen_bounds [OF p] by simp
    have bq: "q < 2 ^ nat (bitlen q)" using bitlen_bounds [OF q] by simp
    have p1: "1 \<le> bitlen p" using p by (simp add: bitlen_alt_def)
    have q0: "0 \<le> bitlen q" by (rule bitlen_nonneg)
    have "(2::rat) powi (?d - 1) = 2 powi (bitlen p - 1) / 2 powi (bitlen q)"
      by (simp add: power_int_diff)
    also have "\<dots> = 2 ^ nat (bitlen p - 1) / 2 ^ nat (bitlen q)"
      using p1 q0 by (simp add: power_int_def)
    also have "\<dots> \<le> of_int p / of_int q"
    proof (rule frac_le)
      show "(0::rat) \<le> of_int p" using p by simp
      show "(2::rat) ^ nat (bitlen p - 1) \<le> of_int p"
        using bp by (metis of_int_le_iff of_int_numeral of_int_power)
      show "(0::rat) < of_int q" using q by simp
      show "(of_int q :: rat) \<le> 2 ^ nat (bitlen q)"
        using bq by (metis less_imp_le of_int_le_iff of_int_numeral of_int_power)
    qed
    finally have "(2::rat) powi (?d - 1) \<le> \<bar>x\<bar>" by (simp only: x)
    moreover have "ilog2 x = ?d - 1" using False by (simp add: ilog2_def pq)
    ultimately show ?thesis by simp
  qed
qed

lemma expo_less:
  assumes "x \<noteq> 0" "\<bar>x\<bar> < 2 powi k" "- 125 \<le> k"
  shows "expo x \<le> k - 1"
proof -
  have "(2::rat) powi (ilog2 x) < 2 powi k"
    using ilog2_le [OF assms(1)] assms(2) by simp
  then have "ilog2 x < k"
    using power_int_increasing [of k "ilog2 x" "2::rat"] by (cases "ilog2 x < k") auto
  with assms(3) show ?thesis by (simp add: expo_def)
qed

lemma ulp_pos [simp]: "0 < ulp x"
  by (simp add: ulp_def)

lemma ulp_nz [simp]: "ulp x \<noteq> 0"
  by (simp add: ulp_def)

lemma ulp_nonneg [simp]: "0 \<le> ulp x"
  by (simp add: ulp_def)

lemma rnd32_err_ulp: "\<bar>rnd32 x - x\<bar> \<le> ulp x / 2"
proof (cases "x = 0")
  case True
  then show ?thesis using ulp_pos [of 0] by (simp add: rnd32_def less_imp_le)
next
  case False
  have "rnd32 x - x = (of_int (rne (x / ulp x)) - x / ulp x) * ulp x"
    using False by (simp add: rnd32_def field_simps)
  then have "\<bar>rnd32 x - x\<bar> = \<bar>of_int (rne (x / ulp x)) - x / ulp x\<bar> * ulp x"
    using ulp_pos [of x] by (simp add: abs_mult less_imp_le)
  also have "\<dots> \<le> (1 / 2) * ulp x"
    by (rule mult_right_mono [OF rne_err]) simp
  finally show ?thesis by simp
qed

lemma rnd32_err:
  assumes "\<bar>x\<bar> < 2 powi k" "- 125 \<le> k"
  shows "\<bar>rnd32 x - x\<bar> \<le> 2 powi (k - 25)"
proof (cases "x = 0")
  case True
  then show ?thesis by (simp add: rnd32_def)
next
  case False
  have "expo x - 23 \<le> k - 24" using expo_less [OF False assms] by simp
  then have "ulp x \<le> 2 powi (k - 24)"
    by (simp add: ulp_def power_int_increasing)
  moreover have "(2::rat) powi (k - 24) / 2 = 2 powi (k - 25)"
    by (simp add: power_int_diff)
  ultimately show ?thesis using rnd32_err_ulp [of x] by simp
qed

lemma rnd32_of_int:
  assumes "\<bar>n\<bar> < 2 ^ 24"
  shows "rnd32 (of_int n) = of_int n"
proof (cases "n = 0")
  case True
  then show ?thesis by (simp add: rnd32_def)
next
  case False
  let ?x = "of_int n :: rat"
  have nz: "?x \<noteq> 0" using False by simp
  have "\<bar>?x\<bar> < 2 powi 24"
    using assms by (metis of_int_abs of_int_less_iff of_int_numeral of_int_power power_int_numeral)
  then have e: "expo ?x \<le> 23" using expo_less [OF nz, of 24] by simp
  define m where "m = nat (23 - expo ?x)"
  have u: "ulp ?x = 1 / 2 ^ m"
    using e by (simp add: ulp_def m_def power_int_def field_simps)
  have "?x / ulp ?x = of_int (n * 2 ^ m)" by (simp add: u)
  then have "rne (?x / ulp ?x) = n * 2 ^ m" by (simp only: rne_of_int)
  then show ?thesis using nz by (simp add: rnd32_def u)
qed

lemma int_to_float_small: "\<bar>n\<bar> < 2 ^ 24 \<Longrightarrow> int_to_float n = of_int n"
  by (simp add: int_to_float_def rnd32_of_int)

lemma clampPct_range: "0 \<le> clampPct p \<and> clampPct p \<le> 100"
  by (simp add: clampPct_def)

lemma p18: "(2::rat) powi (- 18) = 1 / 262144" by (simp add: power_int_minus_divide)
lemma p19: "(2::rat) powi (- 19) = 1 / 524288" by (simp add: power_int_minus_divide)
lemma p23: "(2::rat) powi (- 23) = 1 / 8388608" by (simp add: power_int_minus_divide)

lemma err128: "\<bar>x\<bar> < 128 \<Longrightarrow> \<bar>rnd32 x - x\<bar> \<le> 1 / 262144"
  using rnd32_err [of x 7] by (simp add: p18)

lemma err64: "\<bar>x\<bar> < 64 \<Longrightarrow> \<bar>rnd32 x - x\<bar> \<le> 1 / 524288"
  using rnd32_err [of x 6] by (simp add: p19)

lemma err4: "\<bar>x\<bar> < 4 \<Longrightarrow> \<bar>rnd32 x - x\<bar> \<le> 1 / 8388608"
  using rnd32_err [of x 2] by (simp add: p23)

text \<open>
  The exponent of a value between two powers of two, and the place where rounding to nearest
  even crosses an even integer: the comparison \<^verbatim>\<open>fabsf(delta) >= 12\<close> is decided by the exact
  difference and the half unit in the last place below 12.
\<close>

lemma ilog2_gt:
  assumes "x \<noteq> 0"
  shows "\<bar>x\<bar> < 2 powi (ilog2 x + 1)"
proof -
  obtain p q where pq: "quotient_of \<bar>x\<bar> = (p, q)" by (cases "quotient_of \<bar>x\<bar>")
  then have q: "0 < q" and x: "\<bar>x\<bar> = of_int p / of_int q"
    by (auto simp: quotient_of_denom_pos quotient_of_div)
  from assms have "0 < \<bar>x\<bar>" by simp
  with x have "(0::rat) < of_int p / of_int q" by simp
  with q have p: "0 < p" by (simp add: zero_less_divide_iff)
  let ?d = "bitlen p - bitlen q"
  show ?thesis
  proof (cases "2 powi ?d \<le> \<bar>x\<bar>")
    case False
    then have "ilog2 x = ?d - 1" by (simp add: ilog2_def pq)
    with False show ?thesis by simp
  next
    case True
    have bp: "p < 2 ^ nat (bitlen p)" using bitlen_bounds [OF p] by simp
    have bq: "2 ^ nat (bitlen q - 1) \<le> q" using bitlen_bounds [OF q] by simp
    have q1: "1 \<le> bitlen q" using q by (simp add: bitlen_alt_def)
    have p0: "0 \<le> bitlen p" by (rule bitlen_nonneg)
    have "(of_int p :: rat) / of_int q < 2 ^ nat (bitlen p) / 2 ^ nat (bitlen q - 1)"
    proof (rule frac_less)
      show "(0::rat) \<le> of_int p" using p by simp
      show "(of_int p :: rat) < 2 ^ nat (bitlen p)"
        using bp by (metis of_int_less_iff of_int_numeral of_int_power)
      show "(0::rat) < 2 ^ nat (bitlen q - 1)" by simp
      show "(2::rat) ^ nat (bitlen q - 1) \<le> of_int q"
        using bq by (metis of_int_le_iff of_int_numeral of_int_power)
    qed
    also have "\<dots> = 2 powi (bitlen p) / 2 powi (bitlen q - 1)"
      using q1 p0 by (simp add: power_int_def)
    also have "\<dots> = 2 powi (?d + 1)"
      by (simp add: power_int_diff power_int_add)
    finally have "\<bar>x\<bar> < 2 powi (?d + 1)" by (simp only: x)
    moreover have "ilog2 x = ?d" using True by (simp add: ilog2_def pq)
    ultimately show ?thesis by simp
  qed
qed

lemma expo_eq:
  assumes "2 powi k \<le> \<bar>x\<bar>" "\<bar>x\<bar> < 2 powi (k + 1)" "- 126 \<le> k"
  shows "expo x = k"
proof -
  have "(0::rat) < 2 powi k" by simp
  then have "0 < \<bar>x\<bar>" using assms(1) by (rule less_le_trans)
  then have nz: "x \<noteq> 0" by simp
  have "(2::rat) powi k < 2 powi (ilog2 x + 1)"
    using ilog2_gt [OF nz] assms(1) by simp
  then have a: "k < ilog2 x + 1"
    using power_int_increasing [of "ilog2 x + 1" k "2::rat"] by (cases "k < ilog2 x + 1") auto
  have "(2::rat) powi (ilog2 x) < 2 powi (k + 1)"
    using ilog2_le [OF nz] assms(2) by simp
  then have b: "ilog2 x < k + 1"
    using power_int_increasing [of "k + 1" "ilog2 x" "2::rat"] by (cases "ilog2 x < k + 1") auto
  from a b assms(3) show ?thesis by (simp add: expo_def)
qed

lemma rne_ge_even:
  assumes "even M"
  shows "M \<le> rne y \<longleftrightarrow> of_int M - 1 / 2 \<le> y"
proof -
  define f where "f = \<lfloor>y\<rfloor>"
  have fl: "of_int f \<le> y" "y < of_int f + 1" unfolding f_def by linarith+
  have r: "rne y = (if y - of_int f < 1 / 2 then f else if 1 / 2 < y - of_int f then f + 1
               else if even f then f else f + 1)"
    by (simp add: rne_def f_def Let_def)
  consider "M \<le> f" | "f = M - 1" | "f < M - 1" by linarith
  then show ?thesis
  proof cases
    case 1
    then have "(of_int M :: rat) \<le> of_int f" by simp
    with fl have "of_int M - 1 / 2 \<le> y" by linarith
    moreover have "M \<le> rne y" using 1 by (simp add: r)
    ultimately show ?thesis by simp
  next
    case 2
    then have o: "odd f" using assms by simp
    have e: "(of_int f :: rat) = of_int M - 1" using 2 by simp
    show ?thesis using o fl unfolding r e 2 by (auto simp: not_less)
  next
    case 3
    then have "f + 1 < M" by simp
    then have "(of_int f :: rat) + 1 < of_int M" 
      by (metis of_int_1 of_int_add of_int_less_iff)
    moreover from 3 have "f + 1 \<le> M - 1" by simp
    then have "(of_int f :: rat) + 1 \<le> of_int M - 1"
      by (metis of_int_1 of_int_add of_int_diff of_int_le_iff)
    ultimately have "\<not> of_int M - 1 / 2 \<le> y" using fl by linarith
    moreover have "\<not> M \<le> rne y" using 3 by (simp add: r)
    ultimately show ?thesis by simp
  qed
qed

lemma rne_le_even:
  assumes "even M"
  shows "rne y \<le> M \<longleftrightarrow> y \<le> of_int M + 1 / 2"
proof -
  define f where "f = \<lfloor>y\<rfloor>"
  have fl: "of_int f \<le> y" "y < of_int f + 1" unfolding f_def by linarith+
  have r: "rne y = (if y - of_int f < 1 / 2 then f else if 1 / 2 < y - of_int f then f + 1
               else if even f then f else f + 1)"
    by (simp add: rne_def f_def Let_def)
  consider "f < M" | "f = M" | "M < f" by linarith
  then show ?thesis
  proof cases
    case 1
    then have "f + 1 \<le> M" by simp
    then have "(of_int f :: rat) + 1 \<le> of_int M"
      by (metis of_int_1 of_int_add of_int_le_iff)
    with fl have "y \<le> of_int M + 1 / 2" by linarith
    moreover have "rne y \<le> M" using 1 by (simp add: r)
    ultimately show ?thesis by simp
  next
    case 2
    show ?thesis using assms fl unfolding r 2 by (auto simp: not_less)
  next
    case 3
    then have "M + 1 \<le> f" by simp
    then have "(of_int M :: rat) + 1 \<le> of_int f"
      by (metis of_int_1 of_int_add of_int_le_iff)
    with fl have "\<not> y \<le> of_int M + 1 / 2" by linarith
    moreover have "\<not> rne y \<le> M" using 3 by (simp add: r)
    ultimately show ?thesis by simp
  qed
qed

lemma rnd32_8_16:
  assumes "8 \<le> \<bar>x\<bar>" "\<bar>x\<bar> < 16"
  shows "rnd32 x = of_int (rne (x * 1048576)) / 1048576"
proof -
  have "expo x = 3" using assms by (intro expo_eq) simp_all
  then have u: "ulp x = 1 / 1048576" by (simp add: ulp_def power_int_minus_divide)
  from assms(1) have "x \<noteq> 0" by auto
  then show ?thesis by (simp add: rnd32_def u)
qed

lemma jump_threshold:
  assumes "\<bar>x\<bar> < 128"
  shows "12 \<le> \<bar>rnd32 x\<bar> \<longleftrightarrow> 12 - 1 / 2097152 \<le> \<bar>x\<bar>"
proof -
  consider "\<bar>x\<bar> < 8" | "8 \<le> \<bar>x\<bar>" "\<bar>x\<bar> < 16" | "16 \<le> \<bar>x\<bar>" by linarith
  then show ?thesis
  proof cases
    case 1
    then have "\<bar>rnd32 x - x\<bar> \<le> 1 / 4194304"
      using rnd32_err [of x 3] by (simp add: power_int_minus_divide)
    with 1 show ?thesis by linarith
  next
    case 3
    with err128 [OF assms] show ?thesis by linarith
  next
    case 2
    let ?y = "x * 1048576"
    have "12 \<le> \<bar>rnd32 x\<bar> \<longleftrightarrow> (12582912::rat) \<le> \<bar>of_int (rne ?y)\<bar>"
      by (simp add: rnd32_8_16 [OF 2])
    also have "\<dots> \<longleftrightarrow> 12582912 \<le> \<bar>rne ?y\<bar>"
      by (metis of_int_abs of_int_le_iff of_int_numeral)
    also have "\<dots> \<longleftrightarrow> 12582912 \<le> rne ?y \<or> rne ?y \<le> - 12582912" by linarith
    also have "\<dots> \<longleftrightarrow> 12582912 - 1 / 2 \<le> ?y \<or> ?y \<le> - 12582912 + 1 / 2"
      using rne_ge_even [of 12582912 ?y] rne_le_even [of "- 12582912" ?y] by simp
    also have "\<dots> \<longleftrightarrow> 12 - 1 / 2097152 \<le> \<bar>x\<bar>" by linarith
    finally show ?thesis .
  qed
qed

lemma jump_exact:
  assumes "- (1 / 4096) \<le> L" "L \<le> 100 + 1 / 4096"
  shows "jump (ramp_delta L T) \<longleftrightarrow> COAST_BEFORE_JUMP_PCT - 1 / 2097152 \<le> \<bar>clampPct T - L\<bar>"
proof -
  have "0 \<le> clampPct T" "clampPct T \<le> 100" using clampPct_range by auto
  with assms have "\<bar>clampPct T - L\<bar> < 128" by linarith
  then show ?thesis
    unfolding jump_def ramp_delta_def fsub_def fabsf_def by (rule jump_threshold)
qed






section \<open>The interlocks and the loop\<close>

lemma quiet_iff: "quiet cfg w n \<longleftrightarrow> (\<forall>k\<le>n. \<not> fault_at cfg w k \<and> \<not> ov_at cfg w k)"
  by (auto simp: quiet_def list_all_iff less_Suc_eq_le)

lemma faultActive_eq: "faultActive cfg w = (fault_at cfg w 0, adv_pin cfg (Suc 0) w)"
  by (simp add: faultActive_def fault_at_def adv_pin_def digitalRead_def)

lemma readVbusVolts_enabled:
  "0 \<le> SUPPLY_ADC_PIN cfg \<Longrightarrow> readVbusVolts cfg w = (vbus_at cfg w 0, adv_adc cfg (Suc 0) w)"
  by (simp add: readVbusVolts_def analogRead_def vbus_at_def adv_adc_def)

lemma guard_no_trip:
  "\<not> ov_at cfg w 0 \<Longrightarrow> guardOverVoltage cfg w = (False, adv_adc cfg (Suc 0) w)"
  by (auto simp: guardOverVoltage_def ov_at_def readVbusVolts_enabled adv_adc_def
      readVbusVolts_def analogRead_def vbus_at_def)

lemma guard_trip:
  "ov_at cfg w 0 \<Longrightarrow>
   guardOverVoltage cfg w =
     (True, snd (ov_wait cfg (clock w) (vbus_at cfg w 0) (coast (adv_adc cfg (Suc 0) w))))"
  by (simp add: guardOverVoltage_def ov_at_def readVbusVolts_enabled millis_def coast_def
      adv_adc_def split: prod.splits)

subsection \<open>stepped\<close>

lemma stepped_0 [simp]: "stepped cfg 0 0 [] w = w"
  by (simp add: stepped_def adv_adc_def adv_pin_def)

lemma fault_at_stepped [simp]: "fault_at cfg (stepped cfg m ms evs w) k = fault_at cfg w (m + k)"
  by (simp add: fault_at_def stepped_def adv_adc_def adv_pin_def add.assoc)

lemma vbus_at_stepped [simp]: "vbus_at cfg (stepped cfg m ms evs w) k =
    (if SUPPLY_ADC_PIN cfg < 0 then vbus_at cfg w k else vbus_at cfg w (m + k))"
  by (simp add: vbus_at_def stepped_def adv_adc_def adv_pin_def add.assoc)

lemma ov_at_stepped [simp]: "ov_at cfg (stepped cfg m ms evs w) k = ov_at cfg w (m + k)"
  by (auto simp add: ov_at_def)

lemma trace_stepped [simp]: "trace (stepped cfg m ms evs w) = trace w @ evs"
  by (simp add: stepped_def)

lemma clock_stepped [simp]: "clock (stepped cfg m ms evs w) = clock w + of_nat ms"
  by (simp add: stepped_def)

lemma checks_stepped:
  "adv_adc cfg (Suc 0) (adv_pin cfg (Suc 0) (stepped cfg m ms evs w)) = stepped cfg (Suc m) ms evs w"
  by (simp add: stepped_def adv_adc_def adv_pin_def)

lemma pin_stepped:
  "adv_pin cfg (Suc 0) (stepped cfg m ms evs w) = adv_pin cfg (Suc 0) (stepped cfg m ms evs w)"
  by simp

lemma delay_stepped:
  "delay d (stepped cfg m ms evs w) = stepped cfg m (ms + d) (evs @ [Delay d]) w"
  by (simp add: stepped_def delay_def adv_adc_def adv_pin_def)

lemma coast_stepped:
  "coast (stepped cfg m ms evs w) = stepped cfg m ms (evs @ [Coast]) w"
  by (simp add: stepped_def coast_def adv_adc_def adv_pin_def)

lemma drive_stepped:
  "drive p (stepped cfg m ms evs w) = stepped cfg m ms (evs @ [Drive p]) w"
  by (simp add: stepped_def drive_def adv_adc_def adv_pin_def)

lemmas stepped_simps = checks_stepped delay_stepped coast_stepped drive_stepped

lemma ramp_vals_snoc: "ramp_vals (Suc n) x s = ramp_vals n x s @ [ramp_end (Suc n) x s]"
  by (induction n arbitrary: x) simp_all

lemma ramp_end_Suc: "ramp_end (Suc n) x s = fadd (ramp_end n x s) s"
  by (induction n arbitrary: x) simp_all

lemma ramp_loop_prefix:
  "(\<forall>k<j. \<not> fault_at cfg w (m + k) \<and> \<not> ov_at cfg w (m + k)) \<Longrightarrow>
   ramp_loop cfg (j + r) s x (stepped cfg m ms evs w) =
   ramp_loop cfg r s (ramp_end j x s)
     (stepped cfg (m + j) (ms + SLEW_STEP_MS * j) (evs @ step_events (ramp_vals j x s)) w)"
proof (induction j arbitrary: x m ms evs)
  case 0
  then show ?case by simp
next
  case (Suc j)
  from Suc.prems have q0: "\<not> fault_at cfg w m" "\<not> ov_at cfg w m"
    by (auto dest: spec [of _ 0])
  from Suc.prems have rest: "\<forall>k<j. \<not> fault_at cfg w (Suc m + k) \<and> \<not> ov_at cfg w (Suc m + k)"
    by (auto dest: spec [of _ "Suc k" for k])
  have g: "guardOverVoltage cfg (adv_pin cfg (Suc 0) (stepped cfg m ms evs w))
           = (False, stepped cfg (Suc m) ms evs w)"
    using q0 by (subst guard_no_trip) (simp_all add: checks_stepped ov_at_def vbus_at_def adv_pin_def stepped_def adv_adc_def)
  show ?case
    using q0 Suc.IH [OF rest, of "fadd x s" "ms + SLEW_STEP_MS" "evs @ [Drive (fadd x s), Delay SLEW_STEP_MS]"]
    by (simp add: faultActive_eq g stepped_simps add.assoc Let_def)
qed

lemma float_to_int_ceilf:
  "- (2 ^ 31) \<le> \<lceil>q\<rceil> \<Longrightarrow> \<lceil>q\<rceil> < 2 ^ 31 \<Longrightarrow> float_to_int (ceilf q) = Some \<lceil>q\<rceil>"
  by (simp add: float_to_int_def ceilf_def Let_def)

lemma int_ramp_steps:
  "int (ramp_steps L T) =
     (if \<lceil>fdiv (fabsf (ramp_delta L T)) MAX_SLEW_STEP_PCT\<rceil> < 1 then 1
      else \<lceil>fdiv (fabsf (ramp_delta L T)) MAX_SLEW_STEP_PCT\<rceil>)"
  by (simp add: ramp_steps_def Let_def)

lemma ramp_steps_pos [simp]: "0 < ramp_steps L T"
  by (simp add: ramp_steps_def Let_def)

lemma safeRampTo_run:
  assumes "\<not> fault_at cfg w 0" "\<not> ov_at cfg w 0" "cast_ok L T"
  shows "safeRampTo cfg L T w =
     (case ramp_loop cfg (ramp_steps L T) (ramp_stepSize L T) L
             (stepped cfg (Suc 0) (jump_open_ms (ramp_delta L T)) (jump_open (ramp_delta L T)) w) of
        (fin, x, w4) \<Rightarrow>
          if \<not> fin then Some (x, w4)
          else Some (x, if jump (ramp_delta L T) then delay COAST_AFTER_JUMP_MS (coast w4) else w4))"
proof -
  let ?d = "fsub (clampPct T) L"
  let ?c = "\<lceil>fdiv (fabsf ?d) MAX_SLEW_STEP_PCT\<rceil>"
  have c: "float_to_int (ceilf (fdiv (fabsf ?d) MAX_SLEW_STEP_PCT)) = Some ?c"
    using assms(3) by (simp add: float_to_int_ceilf cast_ok_def Let_def ramp_delta_def)
  have g: "guardOverVoltage cfg (adv_pin cfg (Suc 0) w) = (False, stepped cfg (Suc 0) 0 [] w)"
    using assms(2) checks_stepped [of cfg 0 0 "[]" w]
    by (subst guard_no_trip) (simp_all add: ov_at_def vbus_at_def adv_pin_def)
  have n: "nat (if ?c < 1 then 1 else ?c) = ramp_steps L T"
    by (simp add: ramp_steps_def Let_def ramp_delta_def)
  have s: "fdiv ?d (int_to_float (if ?c < 1 then 1 else ?c)) = ramp_stepSize L T"
    by (simp add: ramp_stepSize_def int_ramp_steps ramp_delta_def)
  have w3: "(if COAST_BEFORE_JUMP_PCT \<le> fabsf ?d
             then delay COAST_BEFORE_JUMP_MS (coast (stepped cfg (Suc 0) 0 [] w))
             else stepped cfg (Suc 0) 0 [] w)
            = stepped cfg (Suc 0) (jump_open_ms ?d) (jump_open ?d) w"
    by (simp add: jump_open_ms_def jump_open_def jump_def stepped_simps)
  have "safeRampTo cfg L T w =
     (case ramp_loop cfg (ramp_steps L T) (ramp_stepSize L T) L
             (stepped cfg (Suc 0) (jump_open_ms ?d) (jump_open ?d) w) of
        (fin, x, w4) \<Rightarrow>
          if \<not> fin then Some (x, w4)
          else Some (x, if jump ?d then delay COAST_AFTER_JUMP_MS (coast w4) else w4))"
    unfolding safeRampTo_def Let_def faultActive_eq prod.case g c option.case n s w3 jump_def
    using assms(1) by simp
  then show ?thesis unfolding ramp_delta_def .
qed

lemma safeRampTo_quiet:
  assumes q: "quiet cfg w (ramp_steps L T)" and ok: "cast_ok L T"
  shows "safeRampTo cfg L T w =
     Some (ramp_end (ramp_steps L T) L (ramp_stepSize L T),
           stepped cfg (Suc (ramp_steps L T)) (ramp_ms L T) (ramp_events L T) w)"
proof -
  from q have q0: "\<not> fault_at cfg w 0" "\<not> ov_at cfg w 0"
    and qs: "\<forall>k<ramp_steps L T. \<not> fault_at cfg w (Suc 0 + k) \<and> \<not> ov_at cfg w (Suc 0 + k)"
    by (auto simp: quiet_iff)
  show ?thesis
    using ramp_loop_prefix [OF qs, of 0 "ramp_stepSize L T" L "jump_open_ms (ramp_delta L T)"
        "jump_open (ramp_delta L T)"]
    by (simp add: safeRampTo_run [OF q0 ok] stepped_simps ramp_events_def ramp_ms_def
        jump_close_def jump_close_ms_def)
qed

section \<open>The wait loop of the guard\<close>

lemma drives_replicate_Delay [simp]: "drives (replicate m (Delay d)) = []"
  by (induction m) simp_all

lemma coasts_replicate_Delay [simp]: "coasts (replicate m (Delay d)) = 0"
  by (induction m) simp_all

lemma word_elapsed:
  fixes c t0 :: "32 word"
  assumes "unat (c - t0) < 3000"
  shows "unat (c + 10 - t0) = unat (c - t0) + 10"
proof -
  have e: "c + 10 - t0 = (c - t0) + 10" by simp
  from assms have "unat ((c - t0) + 10) = unat (c - t0) + 10"
    by (simp add: unat_add_lem [THEN iffD1])
  then show ?thesis by (simp only: e)
qed

lemma ov_wait_frame:
  "\<exists>j m. snd (ov_wait cfg t0 vb w) =
     w\<lparr>clock := clock w + of_nat (10 * m), adc_k := adc_k w + j,
       trace := trace w @ replicate m (Delay 10)\<rparr>"
proof (induction cfg t0 vb w rule: ov_wait.induct)
  case (1 cfg t0 vb w)
  let ?r = "readVbusVolts cfg w"
  have w1: "snd ?r = w\<lparr>adc_k := adc_k w + (if SUPPLY_ADC_PIN cfg < 0 then 0 else 1)\<rparr>"
    by (simp add: readVbusVolts_def analogRead_def)
  show ?case
  proof (cases "millis w - t0 < 3000")
    case False
    then have "snd (ov_wait cfg t0 vb w) = w" by (subst ov_wait.simps) simp
    then show ?thesis by (intro exI [of _ 0]) simp
  next
    case True
    show ?thesis
    proof (cases "0 \<le> fst ?r \<and> fst ?r < VBUS_CLEAR_HYS_VOLTS")
      case c: True
      then have "snd (ov_wait cfg t0 vb w) = snd ?r"
        using True by (subst ov_wait.simps) (simp add: Let_def)
      then show ?thesis
        by (intro exI [of _ "if SUPPLY_ADC_PIN cfg < 0 then 0 else 1"] exI [of _ 0]) (simp add: w1)
    next
      case c: False
      from "1.IH" [OF True refl refl refl c] obtain j m where
        ih: "snd (ov_wait cfg t0 (fst ?r) (delay 10 (snd ?r))) =
             (delay 10 (snd ?r))\<lparr>clock := clock (delay 10 (snd ?r)) + of_nat (10 * m),
                adc_k := adc_k (delay 10 (snd ?r)) + j,
                trace := trace (delay 10 (snd ?r)) @ replicate m (Delay 10)\<rparr>"
        by blast
      have "snd (ov_wait cfg t0 vb w) = snd (ov_wait cfg t0 (fst ?r) (delay 10 (snd ?r)))"
        using True c by (subst ov_wait.simps) (auto simp: Let_def)
      then show ?thesis
        unfolding ih
        by (intro exI [of _ "(if SUPPLY_ADC_PIN cfg < 0 then 0 else 1) + j"] exI [of _ "Suc m"])
          (simp add: w1 delay_def replicate_app_Cons_same)
    qed
  qed
qed

lemma ov_wait_full:
  assumes en: "0 \<le> SUPPLY_ADC_PIN cfg"
  shows "unat (clock w - t0) + 10 * m = 3000 \<Longrightarrow>
     (\<forall>k<m. \<not> ov_clear (vbus_at cfg w k)) \<Longrightarrow>
     ov_wait cfg t0 vb w =
       (if m = 0 then vb else vbus_at cfg w (m - 1),
        w\<lparr>clock := clock w + of_nat (10 * m), adc_k := adc_k w + m,
          trace := trace w @ replicate m (Delay 10)\<rparr>)"
proof (induction m arbitrary: vb w)
  case 0
  then have "\<not> millis w - t0 < 3000" by (simp add: millis_def word_less_nat_alt)
  then show ?case by (subst ov_wait.simps) simp
next
  case (Suc m)
  let ?w = "delay 10 (adv_adc cfg (Suc 0) w)"
  from Suc.prems(1) have lt: "unat (clock w - t0) < 3000" by simp
  then have c: "millis w - t0 < 3000" by (simp add: millis_def word_less_nat_alt)
  from Suc.prems(2) have nc: "\<not> ov_clear (vbus_at cfg w 0)" by blast
  have cl: "clock ?w = clock w + 10" by (simp add: delay_def adv_adc_def)
  have v: "vbus_at cfg ?w k = vbus_at cfg w (Suc k)" for k
    using en by (simp add: vbus_at_def delay_def adv_adc_def)
  have 1: "unat (clock ?w - t0) + 10 * m = 3000"
    using Suc.prems(1) word_elapsed [OF lt] by (simp add: cl)
  have 2: "\<forall>k<m. \<not> ov_clear (vbus_at cfg ?w k)" using Suc.prems(2) by (simp add: v)
  have "ov_wait cfg t0 vb w = ov_wait cfg t0 (vbus_at cfg w 0) ?w"
    using c nc en by (subst ov_wait.simps) (auto simp: readVbusVolts_enabled ov_clear_def Let_def)
  also note Suc.IH [OF 1 2, of "vbus_at cfg w 0"]
  finally have res: "ov_wait cfg t0 vb w =
      (if m = 0 then vbus_at cfg w 0 else vbus_at cfg ?w (m - 1),
       ?w\<lparr>clock := clock ?w + of_nat (10 * m), adc_k := adc_k ?w + m,
          trace := trace ?w @ replicate m (Delay 10)\<rparr>)" .
  have val: "(if m = 0 then vbus_at cfg w 0 else vbus_at cfg ?w (m - 1)) = vbus_at cfg w (Suc m - 1)"
    by (cases m) (simp_all add: v)
  have wd: "?w\<lparr>clock := clock ?w + of_nat (10 * m), adc_k := adc_k ?w + m,
               trace := trace ?w @ replicate m (Delay 10)\<rparr>
            = w\<lparr>clock := clock w + of_nat (10 * Suc m), adc_k := adc_k w + Suc m,
                 trace := trace w @ replicate (Suc m) (Delay 10)\<rparr>"
    using en by (simp add: delay_def adv_adc_def replicate_app_Cons_same)
  show ?case unfolding res val wd by simp
qed

lemma ov_wait_early:
  "0 \<le> SUPPLY_ADC_PIN cfg \<Longrightarrow> ov_wait cfg t0 vb w = (vb', w') \<Longrightarrow> clock w' - t0 < 3000 \<Longrightarrow>
     ov_clear vb' \<and> adc_k w < adc_k w' \<and> vb' = volts cfg (adc_in w (adc_k w' - 1))"
proof (induction cfg t0 vb w rule: ov_wait.induct)
  case (1 cfg t0 vb w)
  note en = "1.prems"(1)
  let ?w = "delay 10 (adv_adc cfg (Suc 0) w)"
  show ?case
  proof (cases "millis w - t0 < 3000")
    case False
    then have "ov_wait cfg t0 vb w = (vb, w)" by (subst ov_wait.simps) simp
    with "1.prems" False show ?thesis by (simp add: millis_def)
  next
    case True
    show ?thesis
    proof (cases "ov_clear (vbus_at cfg w 0)")
      case c: True
      then have "ov_wait cfg t0 vb w = (vbus_at cfg w 0, adv_adc cfg (Suc 0) w)"
        using True en by (subst ov_wait.simps) (simp add: readVbusVolts_enabled ov_clear_def Let_def)
      with "1.prems" c en show ?thesis by (auto simp: adv_adc_def vbus_at_def)
    next
      case c: False
      then have e: "ov_wait cfg t0 vb w = ov_wait cfg t0 (vbus_at cfg w 0) ?w"
        using True en by (subst ov_wait.simps) (auto simp: readVbusVolts_enabled ov_clear_def Let_def)
      have r: "readVbusVolts cfg w = (vbus_at cfg w 0, adv_adc cfg (Suc 0) w)"
        using en by (rule readVbusVolts_enabled)
      have nc: "\<not> (0 \<le> fst (readVbusVolts cfg w) \<and> fst (readVbusVolts cfg w) < VBUS_CLEAR_HYS_VOLTS)"
        using c unfolding r ov_clear_def by simp
      have eq: "ov_wait cfg t0 (fst (readVbusVolts cfg w)) (delay 10 (snd (readVbusVolts cfg w)))
                = (vb', w')"
        using "1.prems"(2) e unfolding r by simp
      have "ov_clear vb' \<and> adc_k ?w < adc_k w' \<and> vb' = volts cfg (adc_in ?w (adc_k w' - 1))"
        using "1.IH" [OF True refl refl refl nc en eq "1.prems"(3)] unfolding r fst_conv snd_conv .
      then show ?thesis using en by (auto simp: delay_def adv_adc_def)
    qed
  qed
qed

lemma ov_wait_clear:
  assumes en: "0 \<le> SUPPLY_ADC_PIN cfg"
  shows "unat (clock w - t0) + 10 * M = 3000 \<Longrightarrow> m < M \<Longrightarrow>
     (\<forall>k<m. \<not> ov_clear (vbus_at cfg w k)) \<Longrightarrow> ov_clear (vbus_at cfg w m) \<Longrightarrow>
     ov_wait cfg t0 vb w =
       (vbus_at cfg w m,
        w\<lparr>clock := clock w + of_nat (10 * m), adc_k := adc_k w + Suc m,
          trace := trace w @ replicate m (Delay 10)\<rparr>)"
proof (induction m arbitrary: vb w M)
  case 0
  then have lt: "unat (clock w - t0) < 3000" by simp
  then have c: "millis w - t0 < 3000" by (simp add: millis_def word_less_nat_alt)
  show ?case
    using c "0.prems"(4) en
    by (subst ov_wait.simps) (auto simp: readVbusVolts_enabled ov_clear_def Let_def adv_adc_def)
next
  case (Suc m)
  let ?w = "delay 10 (adv_adc cfg (Suc 0) w)"
  from Suc.prems(1,2) have lt: "unat (clock w - t0) < 3000" by simp
  then have c: "millis w - t0 < 3000" by (simp add: millis_def word_less_nat_alt)
  from Suc.prems(3) have nc: "\<not> ov_clear (vbus_at cfg w 0)" by blast
  have cl: "clock ?w = clock w + 10" by (simp add: delay_def adv_adc_def)
  have v: "vbus_at cfg ?w k = vbus_at cfg w (Suc k)" for k
    using en by (simp add: vbus_at_def delay_def adv_adc_def)
  obtain M' where M: "M = Suc M'" using Suc.prems(2) by (cases M) simp_all
  have 1: "unat (clock ?w - t0) + 10 * M' = 3000"
    using Suc.prems(1) word_elapsed [OF lt] by (simp add: cl M)
  have 2: "m < M'" using Suc.prems(2) M by simp
  have 3: "\<forall>k<m. \<not> ov_clear (vbus_at cfg ?w k)" using Suc.prems(3) by (simp add: v)
  have 4: "ov_clear (vbus_at cfg ?w m)" using Suc.prems(4) by (simp add: v)
  have "ov_wait cfg t0 vb w = ov_wait cfg t0 (vbus_at cfg w 0) ?w"
    using c nc en by (subst ov_wait.simps) (auto simp: readVbusVolts_enabled ov_clear_def Let_def)
  also note Suc.IH [OF 1 2 3 4, of "vbus_at cfg w 0"]
  finally have res: "ov_wait cfg t0 vb w =
      (vbus_at cfg ?w m,
       ?w\<lparr>clock := clock ?w + of_nat (10 * m), adc_k := adc_k ?w + Suc m,
          trace := trace ?w @ replicate m (Delay 10)\<rparr>)" .
  have wd: "?w\<lparr>clock := clock ?w + of_nat (10 * m), adc_k := adc_k ?w + Suc m,
               trace := trace ?w @ replicate m (Delay 10)\<rparr>
            = w\<lparr>clock := clock w + of_nat (10 * Suc m), adc_k := adc_k w + Suc (Suc m),
                 trace := trace w @ replicate (Suc m) (Delay 10)\<rparr>"
    using en by (simp add: delay_def adv_adc_def replicate_app_Cons_same)
  show ?case unfolding res v wd by simp
qed

lemma guard_trip_full:
  assumes "ov_at cfg w 0" and "\<forall>k<300. \<not> ov_clear (vbus_at cfg w (Suc k))"
  shows "guardOverVoltage cfg w = (True, tripped 301 300 w)"
proof -
  from assms(1) have en: "0 \<le> SUPPLY_ADC_PIN cfg" by (simp add: ov_at_def)
  let ?w = "coast (adv_adc cfg (Suc 0) w)"
  have v: "vbus_at cfg ?w k = vbus_at cfg w (Suc k)" for k
    using en by (simp add: vbus_at_def coast_def adv_adc_def)
  have 1: "unat (clock ?w - clock w) + 10 * 300 = 3000" by (simp add: coast_def adv_adc_def)
  have 2: "\<forall>k<300. \<not> ov_clear (vbus_at cfg ?w k)" using assms(2) by (simp add: v)
  have "snd (ov_wait cfg (clock w) (vbus_at cfg w 0) ?w) =
       ?w\<lparr>clock := clock ?w + of_nat (10 * 300), adc_k := adc_k ?w + 300,
          trace := trace ?w @ replicate 300 (Delay 10)\<rparr>"
    unfolding ov_wait_full [OF en 1 2] snd_conv ..
  then show ?thesis
    using en by (simp add: guard_trip [OF assms(1)] tripped_def coast_def adv_adc_def)
qed

lemma guard_trip_clear:
  assumes "ov_at cfg w 0" and "m < 300" and "\<forall>k<m. \<not> ov_clear (vbus_at cfg w (Suc k))"
    and "ov_clear (vbus_at cfg w (Suc m))"
  shows "guardOverVoltage cfg w = (True, tripped (Suc (Suc m)) m w)"
proof -
  from assms(1) have en: "0 \<le> SUPPLY_ADC_PIN cfg" by (simp add: ov_at_def)
  let ?w = "coast (adv_adc cfg (Suc 0) w)"
  have v: "vbus_at cfg ?w k = vbus_at cfg w (Suc k)" for k
    using en by (simp add: vbus_at_def coast_def adv_adc_def)
  have 1: "unat (clock ?w - clock w) + 10 * 300 = 3000" by (simp add: coast_def adv_adc_def)
  have 2: "\<forall>k<m. \<not> ov_clear (vbus_at cfg ?w k)" using assms(3) by (simp add: v)
  have 3: "ov_clear (vbus_at cfg ?w m)" using assms(4) by (simp add: v)
  have "snd (ov_wait cfg (clock w) (vbus_at cfg w 0) ?w) =
       ?w\<lparr>clock := clock ?w + of_nat (10 * m), adc_k := adc_k ?w + Suc m,
          trace := trace ?w @ replicate m (Delay 10)\<rparr>"
    unfolding ov_wait_clear [OF en 1 assms(2) 2 3] snd_conv ..
  then show ?thesis
    using en by (simp add: guard_trip [OF assms(1)] tripped_def coast_def adv_adc_def)
qed

lemma guard_trip_cases:
  assumes "ov_at cfg w 0"
  shows "\<exists>j m. m \<le> 300 \<and> guardOverVoltage cfg w = (True, tripped j m w)"
proof (cases "\<exists>k<300. ov_clear (vbus_at cfg w (Suc k))")
  case False
  then show ?thesis using guard_trip_full [OF assms] by (intro exI [of _ 301] exI [of _ 300]) simp
next
  case True
  define m where "m = (LEAST k. k < 300 \<and> ov_clear (vbus_at cfg w (Suc k)))"
  from True have "m < 300 \<and> ov_clear (vbus_at cfg w (Suc m))"
    unfolding m_def by (rule LeastI_ex)
  moreover have "\<forall>k<m. \<not> ov_clear (vbus_at cfg w (Suc k))"
  proof (intro allI impI notI)
    fix k assume "k < m" "ov_clear (vbus_at cfg w (Suc k))"
    with \<open>m < 300 \<and> _\<close> have "k < 300 \<and> ov_clear (vbus_at cfg w (Suc k))" by simp
    then have "m \<le> k" unfolding m_def by (rule Least_le)
    with \<open>k < m\<close> show False by simp
  qed
  ultimately show ?thesis
    using guard_trip_clear [OF assms, of m] by (intro exI [of _ "Suc (Suc m)"] exI [of _ m]) simp
qed

lemma trace_tripped [simp]: "trace (tripped j m w) = trace w @ Coast # replicate m (Delay 10)"
  by (simp add: tripped_def)

lemma trace_adv_pin [simp]: "trace (adv_pin cfg m w) = trace w"
  by (simp add: adv_pin_def)

lemma trace_adv_adc [simp]: "trace (adv_adc cfg m w) = trace w"
  by (simp add: adv_adc_def)

lemma trace_coast [simp]: "trace (coast w) = trace w @ [Coast]"
  by (simp add: coast_def)

lemma trace_drive [simp]: "trace (drive p w) = trace w @ [Drive p]"
  by (simp add: drive_def)

lemma trace_delay [simp]: "trace (delay d w) = trace w @ [Delay d]"
  by (simp add: delay_def)

lemma drives_jump_open [simp]: "drives (jump_open d) = []"
  by (simp add: jump_open_def)

lemma drives_jump_close [simp]: "drives (jump_close d) = []"
  by (simp add: jump_close_def)

lemma guard_any:
  "\<exists>evs. trace (snd (guardOverVoltage cfg w)) = trace w @ evs \<and> drives evs = []"
proof (cases "ov_at cfg w 0")
  case True
  from guard_trip_cases [OF True] obtain j m where "guardOverVoltage cfg w = (True, tripped j m w)"
    by blast
  then show ?thesis by simp
next
  case False
  then show ?thesis by (simp add: guard_no_trip)
qed

lemma guard_result:
  "fst (guardOverVoltage cfg w) = ov_at cfg w 0"
proof (cases "ov_at cfg w 0")
  case True
  from guard_trip_cases [OF True] show ?thesis using True by auto
next
  case False
  then show ?thesis by (simp add: guard_no_trip)
qed

lemma ramp_loop_range:
  assumes "P 0"
  shows "(\<forall>i\<le>r. P (ramp_end i x s)) \<Longrightarrow>
     \<exists>evs. trace (snd (snd (ramp_loop cfg r s x w))) = trace w @ evs
          \<and> (\<forall>p\<in>set (drives evs). P p) \<and> P (fst (snd (ramp_loop cfg r s x w)))"
proof (induction r arbitrary: x w)
  case 0
  then show ?case by simp
next
  case (Suc r)
  let ?x = "fadd x s"
  from Suc.prems have x1: "P ?x" by (auto dest: spec [of _ "Suc 0"])
  from Suc.prems have rest: "\<forall>i\<le>r. P (ramp_end i ?x s)"
    by (auto dest: spec [of _ "Suc i" for i])
  show ?case
  proof (cases "fault_at cfg w 0")
    case True
    then show ?thesis using x1 by (simp add: faultActive_eq Let_def)
  next
    case nf: False
    let ?w1 = "adv_pin cfg (Suc 0) w"
    obtain ov w2 where g: "guardOverVoltage cfg ?w1 = (ov, w2)"
      by (cases "guardOverVoltage cfg ?w1")
    from guard_any [of cfg ?w1] g obtain e1 where
      e1: "trace w2 = trace w @ e1" "drives e1 = []" by auto
    show ?thesis
    proof (cases ov)
      case True
      then show ?thesis using nf g e1 assms by (simp add: faultActive_eq Let_def)
    next
      case False
      let ?w3 = "delay SLEW_STEP_MS (drive ?x w2)"
      from Suc.IH [OF rest, of ?w3] obtain e2 where
        e2: "trace (snd (snd (ramp_loop cfg r s ?x ?w3))) = trace ?w3 @ e2"
          "\<forall>p\<in>set (drives e2). P p" "P (fst (snd (ramp_loop cfg r s ?x ?w3)))"
        by blast
      have "ramp_loop cfg (Suc r) s x w = ramp_loop cfg r s ?x ?w3"
        using nf g False by (simp add: faultActive_eq Let_def)
      then show ?thesis
        using e1 e2 x1
        by (intro exI [of _ "e1 @ [Drive ?x, Delay SLEW_STEP_MS] @ e2"]) simp
    qed
  qed
qed

lemma guard_early:
  assumes ov: "ov_at cfg w 0" and g: "guardOverVoltage cfg w = (True, w')"
    and lt: "clock w' - clock w < 3000"
  shows "adc_k w + 1 < adc_k w' \<and> 0 \<le> volts cfg (adc_in w (adc_k w' - 1))
         \<and> volts cfg (adc_in w (adc_k w' - 1)) < VBUS_CLEAR_HYS_VOLTS"
proof -
  from ov have en: "0 \<le> SUPPLY_ADC_PIN cfg" by (simp add: ov_at_def)
  let ?w = "coast (adv_adc cfg (Suc 0) w)"
  obtain vb' where r: "ov_wait cfg (clock w) (vbus_at cfg w 0) ?w = (vb', w')"
    using g guard_trip [OF ov] by (cases "ov_wait cfg (clock w) (vbus_at cfg w 0) ?w") simp
  note e = ov_wait_early [OF en r lt]
  have k: "adc_k ?w = adc_k w + 1" "adc_in ?w = adc_in w"
    using en by (simp_all add: coast_def adv_adc_def)
  from e have "ov_clear vb'" by blast
  moreover from e have "vb' = volts cfg (adc_in w (adc_k w' - 1))" unfolding k by blast
  moreover from e have "adc_k w + 1 < adc_k w'" unfolding k by blast
  ultimately show ?thesis by (auto simp: ov_clear_def)
qed

section \<open>The numbers of a ramp\<close>

lemma ramp_numbers:
  assumes L: "- (1 / 4096) \<le> L" "L \<le> 100 + 1 / 4096"
  shows "\<bar>ramp_delta L T - (clampPct T - L)\<bar> \<le> 1 / 262144"
    and "cast_ok L T"
    and "ramp_steps L T \<le> 34"
    and "\<bar>ramp_stepSize L T - ramp_delta L T / of_nat (ramp_steps L T)\<bar> \<le> 1 / 8388608"
proof -
  let ?T = "clampPct T" and ?d = "ramp_delta L T" and ?n = "ramp_steps L T"
  let ?q = "fdiv (fabsf ?d) MAX_SLEW_STEP_PCT"
  have T: "0 \<le> ?T" "?T \<le> 100" using clampPct_range by auto
  have "\<bar>?T - L\<bar> < 128" using L T by linarith
  then show d: "\<bar>?d - (?T - L)\<bar> \<le> 1 / 262144"
    unfolding ramp_delta_def fsub_def by (rule err128)
  then have dabs: "\<bar>?d\<bar> < 101" using L T by linarith
  then have "\<bar>\<bar>?d\<bar> / 3\<bar> < 64" by simp
  then have q: "\<bar>?q - \<bar>?d\<bar> / 3\<bar> \<le> 1 / 524288"
    unfolding fdiv_def fabsf_def by (rule err64)
  then have qhi: "?q \<le> 34" and qlo: "- 1 < ?q" using dabs by linarith+
  from qhi have chi: "\<lceil>?q\<rceil> \<le> 34" by (simp add: ceiling_le_iff)
  from qlo have clo: "0 \<le> \<lceil>?q\<rceil>" by (simp add: le_ceiling_iff)
  show "cast_ok L T" using chi clo by (simp add: cast_ok_def Let_def)
  have "int ?n \<le> 34" using chi unfolding int_ramp_steps by simp
  then show n34: "?n \<le> 34" by simp
  have npos: "0 < ?n" by simp
  have nf: "int_to_float (int ?n) = of_nat ?n"
    using n34 by (subst int_to_float_small) simp_all
  have "?q \<le> of_int \<lceil>?q\<rceil>" by linarith
  also have "(of_int \<lceil>?q\<rceil> :: rat) \<le> of_nat ?n"
  proof -
    have "\<lceil>?q\<rceil> \<le> int ?n" unfolding int_ramp_steps by simp
    then have "(of_int \<lceil>?q\<rceil> :: rat) \<le> of_int (int ?n)" by (simp only: of_int_le_iff)
    then show ?thesis by simp
  qed
  finally have "\<bar>?d\<bar> / 3 \<le> of_nat ?n + 1 / 524288" using q by linarith
  then have dn: "\<bar>?d\<bar> \<le> 3 * of_nat ?n + 3 / 524288" by linarith
  have n1: "(1::rat) \<le> of_nat ?n" using npos by (simp add: Suc_le_eq)
  have "\<bar>?d / of_nat ?n\<bar> = \<bar>?d\<bar> / of_nat ?n" by simp
  also have "\<dots> \<le> (3 * of_nat ?n + 3 / 524288) / of_nat ?n"
    using dn by (simp add: divide_right_mono)
  also have "\<dots> = 3 + (3 / 524288) / of_nat ?n"
    using npos by (simp add: field_simps)
  also have "\<dots> \<le> 3 + (3 / 524288) / 1"
    using n1 by (intro add_left_mono divide_left_mono) simp_all
  finally have "\<bar>?d / of_nat ?n\<bar> \<le> 3 + (3 / 524288) / 1" .
  then have "\<bar>?d / of_nat ?n\<bar> < 4" by linarith
  then show "\<bar>ramp_stepSize L T - ?d / of_nat ?n\<bar> \<le> 1 / 8388608"
    unfolding ramp_stepSize_def nf fdiv_def by (rule err4)
qed

lemma ramp_drift:
  assumes n: "n \<le> 34" and y: "\<forall>j\<le>n. \<bar>L + of_nat j * s\<bar> \<le> 101"
  shows "k \<le> n \<Longrightarrow> \<bar>ramp_end k L s - (L + of_nat k * s)\<bar> \<le> of_nat k / 262144"
proof (induction k)
  case 0
  then show ?case by simp
next
  case (Suc k)
  let ?x = "ramp_end k L s"
  from Suc have ih: "\<bar>?x - (L + of_nat k * s)\<bar> \<le> of_nat k / 262144" by simp
  from Suc.prems n have "k \<le> 34" by simp
  then have k: "(of_nat k :: rat) \<le> 34" by (metis of_nat_le_iff of_nat_numeral)
  from y Suc.prems have y1: "\<bar>L + of_nat (Suc k) * s\<bar> \<le> 101" by blast
  have split: "?x + s = (?x - (L + of_nat k * s)) + (L + of_nat (Suc k) * s)"
    by (simp add: algebra_simps)
  have "\<bar>?x + s\<bar> < 128" using ih k y1 unfolding split by linarith
  then have r: "\<bar>rnd32 (?x + s) - (?x + s)\<bar> \<le> 1 / 262144" by (rule err128)
  have e: "ramp_end (Suc k) L s = rnd32 (?x + s)"
    by (simp only: ramp_end_Suc fadd_def)
  have "ramp_end (Suc k) L s - (L + of_nat (Suc k) * s)
        = (rnd32 (?x + s) - (?x + s)) + (?x - (L + of_nat k * s))"
    unfolding e by (simp add: algebra_simps)
  then have "\<bar>ramp_end (Suc k) L s - (L + of_nat (Suc k) * s)\<bar> \<le> 1 / 262144 + of_nat k / 262144"
    using r ih by linarith
  then show ?case by (simp add: field_simps)
qed

lemma convex_upper:
  fixes a s hi b c u :: rat
  assumes jn: "j \<le> n" and n: "0 < n"
    and a: "a \<le> hi + b" and e: "a + of_nat n * s \<le> hi + c" and cb: "c + of_nat n * u \<le> b"
  shows "a + of_nat j * s + of_nat j * u \<le> hi + b"
proof -
  let ?N = "of_nat n :: rat" and ?J = "of_nat j :: rat"
  have J: "0 \<le> ?J" "0 \<le> ?N - ?J" and N: "0 < ?N" using jn n by simp_all
  have 1: "(?N - ?J) * a \<le> (?N - ?J) * (hi + b)" using a J by (intro mult_left_mono)
  have 2: "?J * (a + ?N * s) \<le> ?J * (hi + c)" using e J by (intro mult_left_mono)
  have 3: "?J * (c + ?N * u) \<le> ?J * b" using cb J by (intro mult_left_mono)
  have "?N * (a + ?J * s + ?J * u) = (?N - ?J) * a + ?J * (a + ?N * s) + ?J * (?N * u)"
    by (simp add: algebra_simps)
  also have "\<dots> \<le> (?N - ?J) * (hi + b) + ?J * (hi + c) + ?J * (?N * u)"
    using 1 2 by linarith
  also have "\<dots> = (?N - ?J) * (hi + b) + ?J * hi + ?J * (c + ?N * u)"
    by (simp add: algebra_simps)
  also have "\<dots> \<le> (?N - ?J) * (hi + b) + ?J * hi + ?J * b"
    using 3 by linarith
  also have "\<dots> = ?N * (hi + b)" by (simp add: algebra_simps)
  finally show ?thesis using N by (simp only: mult_le_cancel_left_pos)
qed

lemma convex_lower:
  fixes a s lo b c u :: rat
  assumes jn: "j \<le> n" and n: "0 < n"
    and a: "lo - b \<le> a" and e: "lo - c \<le> a + of_nat n * s" and cb: "c + of_nat n * u \<le> b"
  shows "lo - b \<le> a + of_nat j * s - of_nat j * u"
  using convex_upper [OF jn n, of "- a" "- lo" b "- s" c u] a e cb by simp

lemma ramp_bounds:
  assumes L: "- (1 / 4096) \<le> L" "L \<le> 100 + 1 / 4096"
  shows "\<forall>j\<le>ramp_steps L T.
           - (1 / 4096) \<le> ramp_end j L (ramp_stepSize L T)
           \<and> ramp_end j L (ramp_stepSize L T) \<le> 100 + 1 / 4096"
    and "\<bar>ramp_end (ramp_steps L T) L (ramp_stepSize L T) - clampPct T\<bar> \<le> 1 / 4096"
proof -
  let ?T = "clampPct T" and ?d = "ramp_delta L T" and ?n = "ramp_steps L T"
    and ?s = "ramp_stepSize L T"
  let ?N = "of_nat ?n :: rat"
  note nums = ramp_numbers [OF L, of T]
  have T: "0 \<le> ?T" "?T \<le> 100" using clampPct_range by auto
  have npos: "0 < ?n" by simp
  then have N0: "0 < ?N" by simp
  have "?n \<le> 34" by (rule nums(3))
  then have N34: "?N \<le> 34" by (metis of_nat_le_iff of_nat_numeral)
  have "?N * (?s - ?d / ?N) = ?N * ?s - ?d" using N0 by (simp add: field_simps)
  then have "\<bar>?N * ?s - ?d\<bar> = ?N * \<bar>?s - ?d / ?N\<bar>"
    using N0 by (metis abs_mult abs_of_pos)
  also have "\<dots> \<le> ?N * (1 / 8388608)"
    using nums(4) N0 by (intro mult_left_mono) simp_all
  also have "\<dots> \<le> 34 / 8388608" using N34 by simp
  finally have ns: "\<bar>?N * ?s - ?d\<bar> \<le> 34 / 8388608" .
  have endp: "\<bar>L + ?N * ?s - ?T\<bar> \<le> 34 / 8388608 + 1 / 262144"
    using ns nums(1) by linarith
  have cb: "(34 / 8388608 + 1 / 262144) + ?N * (1 / 262144) \<le> (1 / 4096 :: rat)"
    using N34 by simp
  have eq: "of_nat j * (1 / 262144 :: rat) = of_nat j / 262144" for j by simp
  have up: "L + of_nat j * ?s + of_nat j / 262144 \<le> 100 + 1 / 4096" if "j \<le> ?n" for j
  proof -
    have "L + of_nat j * ?s + of_nat j * (1 / 262144) \<le> 100 + 1 / 4096"
    proof (rule convex_upper [OF that npos _ _ cb])
      show "L \<le> 100 + 1 / 4096" by (rule L)
      show "L + ?N * ?s \<le> 100 + (34 / 8388608 + 1 / 262144)" using endp T by linarith
    qed
    then show ?thesis unfolding eq .
  qed
  have lo: "0 - 1 / 4096 \<le> L + of_nat j * ?s - of_nat j / 262144" if "j \<le> ?n" for j
  proof -
    have "0 - 1 / 4096 \<le> L + of_nat j * ?s - of_nat j * (1 / 262144)"
    proof (rule convex_lower [OF that npos _ _ cb])
      show "0 - 1 / 4096 \<le> L" using L by simp
      show "0 - (34 / 8388608 + 1 / 262144) \<le> L + ?N * ?s" using endp T by linarith
    qed
    then show ?thesis unfolding eq .
  qed
  have y: "\<forall>j\<le>?n. \<bar>L + of_nat j * ?s\<bar> \<le> 101"
  proof (intro allI impI)
    fix j assume j: "j \<le> ?n"
    have "(0::rat) \<le> of_nat j / 262144" by simp
    then show "\<bar>L + of_nat j * ?s\<bar> \<le> 101" using up [OF j] lo [OF j] by linarith
  qed
  note drift = ramp_drift [OF nums(3) y]
  show "\<forall>j\<le>?n. - (1 / 4096) \<le> ramp_end j L ?s \<and> ramp_end j L ?s \<le> 100 + 1 / 4096"
  proof (intro allI impI)
    fix j assume j: "j \<le> ?n"
    show "- (1 / 4096) \<le> ramp_end j L ?s \<and> ramp_end j L ?s \<le> 100 + 1 / 4096"
      using drift [OF j] up [OF j] lo [OF j] by linarith
  qed
  have "\<bar>ramp_end ?n L ?s - (L + ?N * ?s)\<bar> \<le> ?N / 262144" using drift [of ?n] by simp
  then show "\<bar>ramp_end ?n L ?s - ?T\<bar> \<le> 1 / 4096"
    using endp N34 by linarith
qed

section \<open>Ramps that an interlock cuts short\<close>

lemma last_ramp_vals: "0 < n \<Longrightarrow> last (ramp_vals n x s) = ramp_end n x s"
  by (cases n) (simp_all add: ramp_vals_snoc del: ramp_vals.simps ramp_end.simps)

lemma adv_pin_stepped_trace [simp]:
  "trace (adv_pin cfg m' (stepped cfg m ms evs w)) = trace w @ evs"
  by simp

lemma ov_at_adv_pin [simp]: "ov_at cfg (adv_pin cfg m w) k = ov_at cfg w k"
  by (simp add: ov_at_def vbus_at_def adv_pin_def)

lemma ramp_loop_fault:
  assumes "\<forall>k<i. \<not> fault_at cfg w (m + k) \<and> \<not> ov_at cfg w (m + k)"
    and "fault_at cfg w (m + i)"
  shows "ramp_loop cfg (i + Suc r) s x (stepped cfg m ms evs w) =
     (False, ramp_end (Suc i) x s,
      coast (adv_pin cfg (Suc 0)
        (stepped cfg (m + i) (ms + SLEW_STEP_MS * i) (evs @ step_events (ramp_vals i x s)) w)))"
  unfolding ramp_loop_prefix [OF assms(1)]
  using assms(2) by (simp add: faultActive_eq Let_def ramp_end_Suc del: ramp_end.simps)

lemma ramp_loop_trip:
  assumes "\<forall>k<i. \<not> fault_at cfg w (m + k) \<and> \<not> ov_at cfg w (m + k)"
    and "\<not> fault_at cfg w (m + i)" and "ov_at cfg w (m + i)"
  shows "\<exists>j p. p \<le> 300 \<and> ramp_loop cfg (i + Suc r) s x (stepped cfg m ms evs w) =
     (False, 0,
      tripped j p (adv_pin cfg (Suc 0)
        (stepped cfg (m + i) (ms + SLEW_STEP_MS * i) (evs @ step_events (ramp_vals i x s)) w)))"
proof -
  let ?w = "adv_pin cfg (Suc 0)
        (stepped cfg (m + i) (ms + SLEW_STEP_MS * i) (evs @ step_events (ramp_vals i x s)) w)"
  have "ov_at cfg ?w 0" using assms(3) by simp
  from guard_trip_cases [OF this] obtain j p where
    g: "p \<le> 300" "guardOverVoltage cfg ?w = (True, tripped j p ?w)" by blast
  show ?thesis
    unfolding ramp_loop_prefix [OF assms(1)]
    using assms(2) g by (intro exI [of _ j] exI [of _ p]) (simp add: faultActive_eq Let_def)
qed

lemma quiet_split:
  "quiet cfg w i \<Longrightarrow> \<not> fault_at cfg w 0 \<and> \<not> ov_at cfg w 0
     \<and> (\<forall>k<i. \<not> fault_at cfg w (Suc 0 + k) \<and> \<not> ov_at cfg w (Suc 0 + k))"
  by (auto simp: quiet_iff)

lemma safeRampTo_fault_step:
  assumes ok: "cast_ok L T" and i: "i < ramp_steps L T" and q: "quiet cfg w i"
    and f: "fault_at cfg w (Suc i)"
  shows "\<exists>w'. safeRampTo cfg L T w = Some (ramp_end (Suc i) L (ramp_stepSize L T), w')
     \<and> trace w' = trace w @ jump_open (ramp_delta L T)
                  @ step_events (ramp_vals i L (ramp_stepSize L T)) @ [Coast]"
proof -
  from quiet_split [OF q] have q0: "\<not> fault_at cfg w 0" "\<not> ov_at cfg w 0"
    and qs: "\<forall>k<i. \<not> fault_at cfg w (Suc 0 + k) \<and> \<not> ov_at cfg w (Suc 0 + k)" by auto
  from i obtain r where n: "ramp_steps L T = i + Suc r"
    by (metis less_imp_Suc_add add_Suc_right)
  from f have f': "fault_at cfg w (Suc 0 + i)" by simp
  show ?thesis
    unfolding safeRampTo_run [OF q0 ok] n [symmetric]
    unfolding n ramp_loop_fault [OF qs f']
    by simp
qed

lemma safeRampTo_trip_step:
  assumes ok: "cast_ok L T" and i: "i < ramp_steps L T" and q: "quiet cfg w i"
    and nf: "\<not> fault_at cfg w (Suc i)" and ov: "ov_at cfg w (Suc i)"
  shows "\<exists>w' p. p \<le> 300 \<and> safeRampTo cfg L T w = Some (0, w')
     \<and> trace w' = trace w @ jump_open (ramp_delta L T)
                  @ step_events (ramp_vals i L (ramp_stepSize L T))
                  @ Coast # replicate p (Delay 10)"
proof -
  from quiet_split [OF q] have q0: "\<not> fault_at cfg w 0" "\<not> ov_at cfg w 0"
    and qs: "\<forall>k<i. \<not> fault_at cfg w (Suc 0 + k) \<and> \<not> ov_at cfg w (Suc 0 + k)" by auto
  from i obtain r where n: "ramp_steps L T = i + Suc r"
    by (metis less_imp_Suc_add add_Suc_right)
  from nf ov have f': "\<not> fault_at cfg w (Suc 0 + i)" "ov_at cfg w (Suc 0 + i)" by simp_all
  from ramp_loop_trip [OF qs f', of r "ramp_stepSize L T" L "jump_open_ms (ramp_delta L T)"
      "jump_open (ramp_delta L T)"]
  obtain j p where p: "p \<le> 300"
    and r: "ramp_loop cfg (i + Suc r) (ramp_stepSize L T) L
        (stepped cfg (Suc 0) (jump_open_ms (ramp_delta L T)) (jump_open (ramp_delta L T)) w) =
      (False, 0, tripped j p (adv_pin cfg (Suc 0)
        (stepped cfg (Suc 0 + i) (jump_open_ms (ramp_delta L T) + SLEW_STEP_MS * i)
           (jump_open (ramp_delta L T) @ step_events (ramp_vals i L (ramp_stepSize L T))) w)))"
    by blast
  show ?thesis
    unfolding safeRampTo_run [OF q0 ok] n r
    using p
    by (intro exI [of _ "tripped j p (adv_pin cfg (Suc 0)
        (stepped cfg (Suc 0 + i) (jump_open_ms (ramp_delta L T) + SLEW_STEP_MS * i)
           (jump_open (ramp_delta L T) @ step_events (ramp_vals i L (ramp_stepSize L T))) w))"]
        exI [of _ p]) simp
qed

lemma safeRampTo_trip_entry:
  assumes nf: "\<not> fault_at cfg w 0" and ov: "ov_at cfg w 0"
  shows "\<exists>w' p. p \<le> 300 \<and> safeRampTo cfg L T w = Some (0, w')
     \<and> trace w' = trace w @ Coast # replicate p (Delay 10)"
proof -
  from ov have "ov_at cfg (adv_pin cfg (Suc 0) w) 0" by simp
  from guard_trip_cases [OF this] obtain j p where p: "p \<le> 300"
    and g: "guardOverVoltage cfg (adv_pin cfg (Suc 0) w) = (True, tripped j p (adv_pin cfg (Suc 0) w))"
    by blast
  have "safeRampTo cfg L T w = Some (0, tripped j p (adv_pin cfg (Suc 0) w))"
    using nf by (simp add: safeRampTo_def faultActive_eq g Let_def)
  then show ?thesis using p by (intro exI [of _ "tripped j p (adv_pin cfg (Suc 0) w)"] exI [of _ p]) simp
qed

section \<open>The range of the duties\<close>

lemma safeRampTo_range:
  assumes L: "- (1 / 4096) \<le> L" "L \<le> 100 + 1 / 4096"
  shows "\<exists>L' w' evs. safeRampTo cfg L T w = Some (L', w') \<and> trace w' = trace w @ evs
           \<and> (\<forall>p\<in>set (drives evs). - (1 / 4096) \<le> p \<and> p \<le> 100 + 1 / 4096)
           \<and> - (1 / 4096) \<le> L' \<and> L' \<le> 100 + 1 / 4096"
proof (cases "fault_at cfg w 0")
  case True
  then have "safeRampTo cfg L T w = Some (L, coast (adv_pin cfg (Suc 0) w))"
    by (simp add: safeRampTo_def faultActive_eq Let_def)
  then show ?thesis using L by (intro exI [of _ L] exI [of _ "coast (adv_pin cfg (Suc 0) w)"] exI [of _ "[Coast]"]) simp
next
  case nf: False
  show ?thesis
  proof (cases "ov_at cfg w 0")
    case True
    then have ov: "ov_at cfg (adv_pin cfg (Suc 0) w) 0"
      by (simp add: ov_at_def vbus_at_def adv_pin_def)
    from guard_trip_cases [OF ov] obtain j m where
      g: "guardOverVoltage cfg (adv_pin cfg (Suc 0) w) = (True, tripped j m (adv_pin cfg (Suc 0) w))"
      by blast
    have "safeRampTo cfg L T w = Some (0, tripped j m (adv_pin cfg (Suc 0) w))"
      using nf by (simp add: safeRampTo_def faultActive_eq g Let_def)
    then show ?thesis
      by (intro exI [of _ 0] exI [of _ "tripped j m (adv_pin cfg (Suc 0) w)"]
          exI [of _ "Coast # replicate m (Delay 10)"]) simp
  next
    case no: False
    let ?P = "\<lambda>p::rat. - (1 / 4096) \<le> p \<and> p \<le> 100 + 1 / 4096"
    let ?w3 = "stepped cfg (Suc 0) (jump_open_ms (ramp_delta L T)) (jump_open (ramp_delta L T)) w"
    let ?r = "ramp_loop cfg (ramp_steps L T) (ramp_stepSize L T) L ?w3"
    have ok: "cast_ok L T" by (rule ramp_numbers(2) [OF L])
    have "?P 0" by simp
    from ramp_loop_range [of ?P, OF this ramp_bounds(1) [OF L, of T], of cfg ?w3]
    obtain evs where evs: "trace (snd (snd ?r)) = trace ?w3 @ evs"
      "\<forall>p\<in>set (drives evs). ?P p" "?P (fst (snd ?r))"
      by blast
    obtain fin x w4 where r: "?r = (fin, x, w4)" by (cases ?r)
    show ?thesis
    proof (cases "fin \<and> jump (ramp_delta L T)")
      case True
      then have "safeRampTo cfg L T w = Some (x, delay COAST_AFTER_JUMP_MS (coast w4))"
        by (simp add: safeRampTo_run [OF nf no ok] r)
      then show ?thesis using evs r
        by (intro exI [of _ x] exI [of _ "delay COAST_AFTER_JUMP_MS (coast w4)"]
            exI [of _ "jump_open (ramp_delta L T) @ evs @ [Coast, Delay COAST_AFTER_JUMP_MS]"]) simp
    next
      case False
      then have "safeRampTo cfg L T w = Some (x, w4)"
        by (auto simp: safeRampTo_run [OF nf no ok] r)
      then show ?thesis using evs r
        by (intro exI [of _ x] exI [of _ w4] exI [of _ "jump_open (ramp_delta L T) @ evs"]) simp
    qed
  qed
qed

section \<open>Concrete ramps\<close>

lemma quiet_shipped [simp]: "quiet (shipped s3) w n"
  by (simp add: quiet_iff fault_at_def ov_at_def shipped_def)

lemma stepped_shipped:
  "stepped (shipped s3) m ms evs w = w\<lparr>clock := clock w + of_nat ms, trace := trace w @ evs\<rparr>"
  by (simp add: stepped_def adv_adc_def adv_pin_def shipped_def)

lemma drives_ramp_events [simp]:
  "drives (ramp_events L T) = ramp_vals (ramp_steps L T) L (ramp_stepSize L T)"
  by (simp add: ramp_events_def)

lemma ramp_vals_nonempty: "0 < n \<Longrightarrow> ramp_vals n x s \<noteq> []"
  by (cases n) simp_all

lemma steps_20_75: "ramp_steps 20 75 = 19" by code_simp
lemma stepSize_20_75: "ramp_stepSize 20 75 = 6070703 / 2097152" by code_simp
lemma end_20_75: "ramp_end 19 20 (6070703 / 2097152) = 75 + 1 / 131072" by code_simp
lemma cast_20_75: "cast_ok 20 75" by code_simp
lemma jump_20_75: "jump (ramp_delta 20 75)" by code_simp

lemma steps_93: "ramp_steps 93 1000 = 3" by code_simp
lemma stepSize_93: "ramp_stepSize 93 1000 = 9786709 / 4194304" by code_simp
lemma vals_93: "ramp_vals 3 93 (9786709 / 4194304) = [12495531 / 131072, 6400683 / 65536, 100 + 1 / 131072]"
  by code_simp
lemma end_93: "ramp_end 3 93 (9786709 / 4194304) = 100 + 1 / 131072" by code_simp
lemma cast_93: "cast_ok 93 1000" by code_simp

lemma steps_3_15: "ramp_steps (12582913 / 4194304) 15 = 4" by code_simp
lemma stepSize_3_15: "ramp_stepSize (12582913 / 4194304) 15 = 3" by code_simp
lemma vals_3_15: "ramp_vals 4 (12582913 / 4194304) 3 = [6, 9, 12, 15]" by code_simp
lemma cast_3_15: "cast_ok (12582913 / 4194304) 15" by code_simp
lemma jump_3_15: "jump (ramp_delta (12582913 / 4194304) 15)" by code_simp
lemma is_f32_3_15: "is_f32 (12582913 / 4194304)" by code_simp

lemma steps_75_35: "ramp_steps 75 35 = 14" by code_simp
lemma stepSize_75_35: "ramp_stepSize 75 35 = - (5991863 / 2097152)" by code_simp
lemma end_75_35: "ramp_end 14 75 (- (5991863 / 2097152)) = 9175041 / 262144" by code_simp

lemma steps_42_35: "ramp_steps 42 35 = 3" by code_simp
lemma stepSize_42_35: "ramp_stepSize 42 35 = - (9786709 / 4194304)" by code_simp
lemma vals_42_35:
  "ramp_vals 3 42 (- (9786709 / 4194304))
   = [10398379 / 262144, 4893355 / 131072, 9175041 / 262144]" by code_simp


lemma is_f32_42: "is_f32 42"
  using rnd32_of_int [of 42] by (simp add: is_f32_def)

lemma volts_0: "volts armed 0 = 0" by code_simp
lemma volts_2700: "volts armed 2700 = 7785677 / 262144" by code_simp
lemma volts_2455: "volts armed 2455 = 14158397 / 524288" by code_simp
lemma volts_2400: "volts armed 2400 = 3460301 / 131072" by code_simp
lemma first_step_20_75: "fadd 20 (6070703 / 2097152) = 3000859 / 131072" by code_simp

lemma armed_pins [simp]: "FAULT_PIN armed = 40" "FAULT_ACTIVE_LOW armed" "SUPPLY_ADC_PIN armed = 4"
  "FAULT_PIN armed_raw = 40" "FAULT_ACTIVE_LOW armed_raw" "SUPPLY_ADC_PIN armed_raw = 4"
  by (simp_all add: armed_def armed_raw_def)

lemma board_simps [simp]:
  "clock (board pins adc) = 0" "pin_in (board pins adc) = pins" "pin_k (board pins adc) = 0"
  "adc_in (board pins adc) = adc" "adc_k (board pins adc) = 0" "trace (board pins adc) = []"
  by (simp_all add: board_def)

section \<open>The shipped configuration and the phases\<close>

lemma faultActive_shipped [simp]: "faultActive (shipped s3) w = (False, w)"
  by (simp add: faultActive_def shipped_def)

lemma guard_shipped [simp]: "guardOverVoltage (shipped s3) w = (False, w)"
  by (simp add: guardOverVoltage_def shipped_def)

lemma warmup_no_break:
  assumes "warmup_loop (shipped s3) t0 L w = Some r"
  shows "\<not> fst r"
proof -
  have "shipped s3 = shipped s3 \<longrightarrow> \<not> fst r"
  proof (rule warmup_loop.raw_induct
      [where P = "\<lambda>cfg t0 L w r. cfg = shipped s3 \<longrightarrow> \<not> fst r", OF _ assms], goal_cases)
    case (1 f cfg t0 L w r)
    then show ?case
      by (auto split: if_splits option.splits prod.splits)
  qed
  then show ?thesis by simp
qed

lemma step_load_no_break:
  assumes "step_load_loop (shipped s3) t0 hi L w = Some r"
  shows "\<not> fst r"
proof -
  have "shipped s3 = shipped s3 \<longrightarrow> \<not> fst r"
  proof (rule step_load_loop.raw_induct
      [where P = "\<lambda>cfg t0 hi L w r. cfg = shipped s3 \<longrightarrow> \<not> fst r", OF _ assms], goal_cases)
    case (1 f cfg t0 hi L w r)
    then show ?case
      by (auto split: if_splits option.splits prod.splits)
  qed
  then show ?thesis by simp
qed

lemma bursts_no_break:
  assumes "bursts_loop (shipped s3) t0 L w = Some r"
  shows "\<not> fst r"
proof -
  have "shipped s3 = shipped s3 \<longrightarrow> \<not> fst r"
  proof (rule bursts_loop.raw_induct
      [where P = "\<lambda>cfg t0 L w r. cfg = shipped s3 \<longrightarrow> \<not> fst r", OF _ assms], goal_cases)
    case (1 f cfg t0 L w r)
    then show ?case
      by (auto split: if_splits option.splits prod.splits)
  qed
  then show ?thesis by simp
qed

lemma soak_no_break:
  assumes "soak_loop (shipped s3) t0 L w = Some r"
  shows "\<not> fst r"
proof -
  have "shipped s3 = shipped s3 \<longrightarrow> \<not> fst r"
  proof (rule soak_loop.raw_induct
      [where P = "\<lambda>cfg t0 L w r. cfg = shipped s3 \<longrightarrow> \<not> fst r", OF _ assms], goal_cases)
    case (1 f cfg t0 L w r)
    then show ?case
      by (auto split: if_splits option.splits prod.splits)
  qed
  then show ?thesis by simp
qed

lemma safeRampTo_same:
  assumes "is_f32 L" and "clampPct T = L" and "quiet cfg w 1"
  shows "safeRampTo cfg L T w
         = Some (L, stepped cfg 2 SLEW_STEP_MS [Drive L, Delay SLEW_STEP_MS] w)"
proof -
  have d: "ramp_delta L T = 0"
    using assms(2) by (simp add: ramp_delta_def fsub_def rnd32_def)
  have n: "ramp_steps L T = 1"
    by (simp add: ramp_steps_def d fdiv_def fabsf_def rnd32_def)
  have s: "ramp_stepSize L T = 0"
    by (simp add: ramp_stepSize_def d fdiv_def rnd32_def)
  have ok: "cast_ok L T"
    by (simp add: cast_ok_def d fdiv_def fabsf_def rnd32_def)
  have x: "fadd L 0 = L"
    using assms(1) by (simp add: fadd_def is_f32_def)
  have "safeRampTo cfg L T w
        = Some (ramp_end (ramp_steps L T) L (ramp_stepSize L T),
                stepped cfg (Suc (ramp_steps L T)) (ramp_ms L T) (ramp_events L T) w)"
    using assms(3) ok unfolding n [symmetric] by (rule safeRampTo_quiet)
  then show ?thesis
    by (simp add: n s x ramp_events_def ramp_ms_def jump_open_def jump_close_def
        jump_open_ms_def jump_close_ms_def jump_def d fabsf_def numeral_2_eq_2)
qed

lemma same_shipped:
  assumes "\<bar>n\<bar> < 2 ^ 24" and "0 \<le> n" "n \<le> 100"
  shows "safeRampTo (shipped s3) (of_int n) (of_int n) w
         = Some (of_int n, w\<lparr>clock := clock w + 18,
                              trace := trace w @ [Drive (of_int n), Delay SLEW_STEP_MS]\<rparr>)"
proof -
  have "is_f32 (of_int n)" using assms(1) by (simp add: is_f32_def rnd32_of_int)
  moreover have "clampPct (of_int n) = (of_int n :: rat)" using assms(2,3) by (simp add: clampPct_def)
  ultimately show ?thesis
    by (simp add: safeRampTo_same stepped_shipped)
qed

lemma last_Cons_ramp_vals: "last (x # ramp_vals i x s) = ramp_end i x s"
proof (cases i)
  case 0
  then show ?thesis by simp
next
  case (Suc j)
  then have "ramp_vals i x s \<noteq> []" by (simp add: ramp_vals_nonempty)
  then have "last (x # ramp_vals i x s) = last (ramp_vals i x s)" by simp
  also have "\<dots> = ramp_end i x s" using Suc by (simp only: last_ramp_vals zero_less_Suc)
  finally show ?thesis .
qed

lemma steps_0_42: "ramp_steps 0 42 = 14" by code_simp
lemma stepSize_0_42: "ramp_stepSize 0 42 = 3" by code_simp
lemma end_0_42: "ramp_end 14 0 3 = 42" by code_simp
lemma cast_0_42: "cast_ok 0 42" by code_simp
lemma jump_0_42: "jump (ramp_delta 0 42)" by code_simp

section \<open>Convergence\<close>

text \<open>
  C1. With LastCommandedDuty \<open>L\<close> in \<open>[0, 100]\<close> (and up to \<open>1/4096\<close> outside), any target
  \<open>T\<close>, and neither interlock firing at entry or at a re-check, \<^verbatim>\<open>safeRampTo\<close> returns after
  exactly \<open>steps\<close> calls of \<^verbatim>\<open>drive()\<close>, \<open>steps\<close> being \<open>ceil(|delta| / 3)\<close> as the code computes it
  in single precision and at least 1; the last call drives the final LastCommandedDuty, which
  lies within \<open>1/4096\<close> of the clamped target.
\<close>

theorem ramp_converges:
  assumes "- (1 / 4096) \<le> L" "L \<le> 100 + 1 / 4096" and "quiet cfg w (ramp_steps L T)"
  shows "\<exists>w'. safeRampTo cfg L T w
             = Some (ramp_end (ramp_steps L T) L (ramp_stepSize L T), w')
     \<and> drives (trace w')
         = drives (trace w) @ ramp_vals (ramp_steps L T) L (ramp_stepSize L T)
     \<and> length (ramp_vals (ramp_steps L T) L (ramp_stepSize L T)) = ramp_steps L T
     \<and> last (ramp_vals (ramp_steps L T) L (ramp_stepSize L T))
         = ramp_end (ramp_steps L T) L (ramp_stepSize L T)
     \<and> int (ramp_steps L T)
         = max 1 \<lceil>fdiv (fabsf (fsub (clampPct T) L)) MAX_SLEW_STEP_PCT\<rceil>
     \<and> ramp_steps L T \<le> 34
     \<and> \<bar>ramp_end (ramp_steps L T) L (ramp_stepSize L T) - clampPct T\<bar> \<le> 1 / 4096"
proof -
  note nums = ramp_numbers [OF assms(1,2), of T]
  have "safeRampTo cfg L T w
        = Some (ramp_end (ramp_steps L T) L (ramp_stepSize L T),
                stepped cfg (Suc (ramp_steps L T)) (ramp_ms L T) (ramp_events L T) w)"
    using assms(3) nums(2) by (rule safeRampTo_quiet)
  moreover have "int (ramp_steps L T)
         = max 1 \<lceil>fdiv (fabsf (fsub (clampPct T) L)) MAX_SLEW_STEP_PCT\<rceil>"
    by (simp add: int_ramp_steps ramp_delta_def max_def)
  ultimately show ?thesis
    using nums(3) ramp_bounds(2) [OF assms(1,2), of T]
    by (intro exI [of _ "stepped cfg (Suc (ramp_steps L T)) (ramp_ms L T) (ramp_events L T) w"])
      (simp add: last_ramp_vals)
qed

theorem ramp_converges_witness:
  "quiet (shipped True) bench (ramp_steps 20 75)
   \<and> (\<exists>w'. safeRampTo (shipped True) 20 75 bench = Some (75 + 1 / 131072, w')
          \<and> length (drives (trace w')) = 19
          \<and> last (drives (trace w')) = 75 + 1 / 131072)
   \<and> \<bar>75 + 1 / 131072 - clampPct 75\<bar> \<le> (1 / 4096 :: rat)"
  using ramp_converges [of 20 "shipped True" bench 75]
  by (simp add: steps_20_75 stepSize_20_75 end_20_75 bench_def board_def) auto

theorem ramp_20_75_not_exact:
  "map_option fst (safeRampTo (shipped True) 20 75 bench) = Some (75 + 1 / 131072)
   \<and> map_option (last \<circ> drives \<circ> trace \<circ> snd) (safeRampTo (shipped True) 20 75 bench)
       = Some (75 + 1 / 131072)
   \<and> map_option (length \<circ> drives \<circ> trace \<circ> snd) (safeRampTo (shipped True) 20 75 bench)
       = Some 19
   \<and> 75 + 1 / 131072 \<noteq> (75 :: rat)"
proof -
  have "safeRampTo (shipped True) 20 75 bench
        = Some (ramp_end (ramp_steps 20 75) 20 (ramp_stepSize 20 75),
                stepped (shipped True) (Suc (ramp_steps 20 75)) (ramp_ms 20 75)
                  (ramp_events 20 75) bench)"
    by (rule safeRampTo_quiet) (simp_all add: cast_20_75)
  then show ?thesis
    using last_ramp_vals [of 19 20 "6070703 / 2097152"]
    by (simp add: steps_20_75 stepSize_20_75 end_20_75 bench_def board_def)
qed

section \<open>Clamping\<close>

text \<open>
  C5. For a target of any magnitude or sign and LastCommandedDuty within \<open>1/4096\<close> of
  \<open>[0, 100]\<close> at entry, whatever the interlocks do: \<^verbatim>\<open>safeRampTo\<close> returns, every duty it passes to
  \<^verbatim>\<open>drive()\<close> and LastCommandedDuty at return are again within \<open>1/4096\<close> of \<open>[0, 100]\<close>, and the
  clamped target and the duty each backend applies are in \<open>[0, 100]\<close>.
\<close>

theorem duty_range:
  assumes "- (1 / 4096) \<le> L" "L \<le> 100 + 1 / 4096"
  shows "\<exists>L' w' evs. safeRampTo cfg L T w = Some (L', w') \<and> trace w' = trace w @ evs
     \<and> (\<forall>p\<in>set (drives evs). - (1 / 4096) \<le> p \<and> p \<le> 100 + 1 / 4096
                                \<and> 0 \<le> backend_duty p \<and> backend_duty p \<le> 100)
     \<and> - (1 / 4096) \<le> L' \<and> L' \<le> 100 + 1 / 4096
     \<and> 0 \<le> clampPct T \<and> clampPct T \<le> 100"
proof -
  from safeRampTo_range [OF assms, of cfg T w] obtain L' w' evs where
    r: "safeRampTo cfg L T w = Some (L', w')" "trace w' = trace w @ evs"
      "\<forall>p\<in>set (drives evs). - (1 / 4096) \<le> p \<and> p \<le> 100 + 1 / 4096"
      "- (1 / 4096) \<le> L'" "L' \<le> 100 + 1 / 4096"
    by blast
  show ?thesis
    using r clampPct_range
    by (intro exI [of _ L'] exI [of _ w'] exI [of _ evs]) (simp add: backend_duty_def)
qed

theorem duty_range_witness:
  "\<exists>L' w' evs. safeRampTo (shipped True) 93 1000 bench = Some (L', w')
     \<and> trace w' = trace bench @ evs
     \<and> (\<forall>p\<in>set (drives evs). - (1 / 4096) \<le> p \<and> p \<le> 100 + 1 / 4096
                                \<and> 0 \<le> backend_duty p \<and> backend_duty p \<le> 100)
     \<and> - (1 / 4096) \<le> L' \<and> L' \<le> 100 + 1 / 4096
     \<and> 0 \<le> clampPct 1000 \<and> clampPct 1000 \<le> 100"
  using duty_range [of 93 "shipped True" 1000 bench] by simp

theorem ramp_93_leaves_range:
  "map_option (drives \<circ> trace \<circ> snd) (safeRampTo (shipped True) 93 1000 bench)
     = Some [12495531 / 131072, 6400683 / 65536, 100 + 1 / 131072]
   \<and> map_option fst (safeRampTo (shipped True) 93 1000 bench) = Some (100 + 1 / 131072)
   \<and> \<not> 100 + 1 / 131072 \<le> (100 :: rat)"
proof -
  have "safeRampTo (shipped True) 93 1000 bench
        = Some (ramp_end (ramp_steps 93 1000) 93 (ramp_stepSize 93 1000),
                stepped (shipped True) (Suc (ramp_steps 93 1000)) (ramp_ms 93 1000)
                  (ramp_events 93 1000) bench)"
    by (rule safeRampTo_quiet) (simp_all add: cast_93)
  then show ?thesis
    by (simp add: steps_93 stepSize_93 end_93 vals_93 bench_def board_def)
qed

section \<open>The coast bracket of a large change\<close>

text \<open>
  C6. A ramp from a LastCommandedDuty \<open>L\<close> in \<open>[0, 100]\<close> (and up to \<open>1/4096\<close> outside) that no
  interlock interrupts makes exactly these calls when the exact difference
  \<open>|clampPct T - L|\<close> is at least \<open>12 - 1/2097152\<close>, so in particular when it is at least 12:
  \<^verbatim>\<open>coast()\<close> and the 90 ms delay, then for each step \<^verbatim>\<open>drive()\<close> and the 18 ms delay, then
  \<^verbatim>\<open>coast()\<close> and the 60 ms delay, two \<^verbatim>\<open>coast()\<close> in all. When the exact difference is below
  \<open>12 - 1/2097152\<close> it makes the steps only and no \<^verbatim>\<open>coast()\<close>. There is at least one step, upwards
  or downwards.
\<close>

theorem jump_bracketing:
  assumes "- (1 / 4096) \<le> L" "L \<le> 100 + 1 / 4096" and "quiet cfg w (ramp_steps L T)"
  shows "\<exists>w' vs. safeRampTo cfg L T w = Some (last vs, w')
     \<and> vs = ramp_vals (ramp_steps L T) L (ramp_stepSize L T) \<and> vs \<noteq> []
     \<and> (COAST_BEFORE_JUMP_PCT - 1 / 2097152 \<le> \<bar>clampPct T - L\<bar> \<longrightarrow>
          trace w' = trace w @ [Coast, Delay COAST_BEFORE_JUMP_MS] @ step_events vs
                              @ [Coast, Delay COAST_AFTER_JUMP_MS]
          \<and> coasts (trace w') = coasts (trace w) + 2)
     \<and> (\<bar>clampPct T - L\<bar> < COAST_BEFORE_JUMP_PCT - 1 / 2097152 \<longrightarrow>
          trace w' = trace w @ step_events vs \<and> coasts (trace w') = coasts (trace w))"
proof -
  have "safeRampTo cfg L T w
        = Some (ramp_end (ramp_steps L T) L (ramp_stepSize L T),
                stepped cfg (Suc (ramp_steps L T)) (ramp_ms L T) (ramp_events L T) w)"
    using assms(3) ramp_numbers(2) [OF assms(1,2)] by (rule safeRampTo_quiet)
  moreover have "jump (ramp_delta L T)
      \<longleftrightarrow> COAST_BEFORE_JUMP_PCT - 1 / 2097152 \<le> \<bar>clampPct T - L\<bar>"
    using assms(1,2) by (rule jump_exact)
  ultimately show ?thesis
    by (intro exI [of _ "stepped cfg (Suc (ramp_steps L T)) (ramp_ms L T) (ramp_events L T) w"]
        exI [of _ "ramp_vals (ramp_steps L T) L (ramp_stepSize L T)"])
      (simp add: last_ramp_vals ramp_vals_nonempty ramp_events_def jump_open_def jump_close_def
        not_le)
qed

theorem jump_bracketing_witness:
  "COAST_BEFORE_JUMP_PCT - 1 / 2097152 \<le> \<bar>clampPct 35 - (75 :: rat)\<bar>
   \<and> (\<exists>w'. safeRampTo (shipped True) 75 35 bench = Some (9175041 / 262144, w')
         \<and> trace w' = [Coast, Delay COAST_BEFORE_JUMP_MS]
                       @ step_events (ramp_vals 14 75 (- (5991863 / 2097152)))
                       @ [Coast, Delay COAST_AFTER_JUMP_MS]
         \<and> coasts (trace w') = 2)
   \<and> \<bar>clampPct 35 - (42 :: rat)\<bar> < COAST_BEFORE_JUMP_PCT - 1 / 2097152
   \<and> (\<exists>w'. safeRampTo (shipped True) 42 35 bench = Some (9175041 / 262144, w')
         \<and> trace w' = [Drive (10398379 / 262144), Delay SLEW_STEP_MS,
                        Drive (4893355 / 131072), Delay SLEW_STEP_MS,
                        Drive (9175041 / 262144), Delay SLEW_STEP_MS]
         \<and> coasts (trace w') = 0)"
proof -
  have a: "COAST_BEFORE_JUMP_PCT - 1 / 2097152 \<le> \<bar>clampPct 35 - (75 :: rat)\<bar>"
    by (simp add: clampPct_def)
  have b: "\<bar>clampPct 35 - (42 :: rat)\<bar> < COAST_BEFORE_JUMP_PCT - 1 / 2097152"
    by (simp add: clampPct_def)
  have 1: "\<exists>w'. safeRampTo (shipped True) 75 35 bench = Some (9175041 / 262144, w')
         \<and> trace w' = [Coast, Delay COAST_BEFORE_JUMP_MS]
                       @ step_events (ramp_vals 14 75 (- (5991863 / 2097152)))
                       @ [Coast, Delay COAST_AFTER_JUMP_MS]
         \<and> coasts (trace w') = 2"
    using jump_bracketing [of 75 "shipped True" bench 35] a
      last_ramp_vals [of 14 75 "- (5991863 / 2097152)"]
    by (auto simp: steps_75_35 stepSize_75_35 end_75_35 bench_def board_def)
  have 2: "\<exists>w'. safeRampTo (shipped True) 42 35 bench = Some (9175041 / 262144, w')
         \<and> trace w' = [Drive (10398379 / 262144), Delay SLEW_STEP_MS,
                        Drive (4893355 / 131072), Delay SLEW_STEP_MS,
                        Drive (9175041 / 262144), Delay SLEW_STEP_MS]
         \<and> coasts (trace w') = 0"
    using jump_bracketing [of 42 "shipped True" bench 35] b
    by (auto simp: steps_42_35 stepSize_42_35 vals_42_35 bench_def board_def)
  show ?thesis using a b 1 2 by blast
qed

text \<open>
  From \<open>3 + 1/4194304\<close> to 15 the exact difference is below 12; the single-precision difference is
  12, and the ramp is bracketed by both coasts.
\<close>

theorem jump_below_threshold:
  "is_f32 (3 + 1 / 4194304)
   \<and> \<bar>clampPct 15 - (3 + 1 / 4194304)\<bar> < COAST_BEFORE_JUMP_PCT
   \<and> map_option (trace \<circ> snd) (safeRampTo (shipped True) (3 + 1 / 4194304) 15 bench)
       = Some [Coast, Delay COAST_BEFORE_JUMP_MS,
               Drive 6, Delay SLEW_STEP_MS, Drive 9, Delay SLEW_STEP_MS,
               Drive 12, Delay SLEW_STEP_MS, Drive 15, Delay SLEW_STEP_MS,
               Coast, Delay COAST_AFTER_JUMP_MS]"
proof -
  have e: "(3 :: rat) + 1 / 4194304 = 12582913 / 4194304" by simp
  have "safeRampTo (shipped True) (12582913 / 4194304) 15 bench
        = Some (ramp_end (ramp_steps (12582913 / 4194304) 15) (12582913 / 4194304)
                  (ramp_stepSize (12582913 / 4194304) 15),
                stepped (shipped True) (Suc (ramp_steps (12582913 / 4194304) 15))
                  (ramp_ms (12582913 / 4194304) 15) (ramp_events (12582913 / 4194304) 15) bench)"
    by (rule safeRampTo_quiet) (simp_all add: cast_3_15)
  moreover have "\<bar>clampPct 15 - 12582913 / 4194304\<bar> < (12 :: rat)"
    by (simp add: clampPct_def)
  ultimately show ?thesis
    unfolding e using jump_3_15
    by (simp add: is_f32_3_15 steps_3_15 stepSize_3_15 vals_3_15 ramp_events_def jump_open_def
        jump_close_def bench_def board_def)
qed

section \<open>Ramping to the current duty\<close>

text \<open>
  C8. When the clamped target equals LastCommandedDuty \<open>L\<close> (a single-precision value) and no
  interlock fires, \<^verbatim>\<open>safeRampTo\<close> makes one call \<^verbatim>\<open>drive(L)\<close>, followed by the 18 ms delay, makes
  no call of \<^verbatim>\<open>coast()\<close>, and leaves LastCommandedDuty equal to \<open>L\<close>.
\<close>

theorem ramp_idempotent:
  assumes "is_f32 L" and "clampPct T = L" and "quiet cfg w 1"
  shows "\<exists>w'. safeRampTo cfg L T w = Some (L, w')
     \<and> trace w' = trace w @ [Drive L, Delay SLEW_STEP_MS]
     \<and> drives (trace w') = drives (trace w) @ [L]
     \<and> coasts (trace w') = coasts (trace w)"
proof -
  have d: "ramp_delta L T = 0"
    using assms(2) by (simp add: ramp_delta_def fsub_def rnd32_def)
  have n: "ramp_steps L T = 1"
    by (simp add: ramp_steps_def d fdiv_def fabsf_def rnd32_def)
  have s: "ramp_stepSize L T = 0"
    by (simp add: ramp_stepSize_def d fdiv_def rnd32_def)
  have ok: "cast_ok L T"
    by (simp add: cast_ok_def d fdiv_def fabsf_def rnd32_def)
  have x: "fadd L 0 = L"
    using assms(1) by (simp add: fadd_def is_f32_def)
  have "safeRampTo cfg L T w
        = Some (ramp_end (ramp_steps L T) L (ramp_stepSize L T),
                stepped cfg (Suc (ramp_steps L T)) (ramp_ms L T) (ramp_events L T) w)"
    using assms(3) ok unfolding n [symmetric] by (rule safeRampTo_quiet)
  then show ?thesis
    by (intro exI [of _ "stepped cfg (Suc (ramp_steps L T)) (ramp_ms L T) (ramp_events L T) w"])
      (simp add: n s x ramp_events_def jump_open_def jump_close_def jump_def d fabsf_def)
qed

theorem ramp_idempotent_witness:
  "is_f32 42 \<and> clampPct 42 = 42 \<and> quiet (shipped True) bench 1
   \<and> (\<exists>w'. safeRampTo (shipped True) 42 42 bench = Some (42, w')
          \<and> trace w' = [Drive 42, Delay SLEW_STEP_MS]
          \<and> drives (trace w') = [42] \<and> coasts (trace w') = 0)"
  using ramp_idempotent [OF is_f32_42, of 42 "shipped True" bench]
  by (simp add: is_f32_42 clampPct_def bench_def board_def)

section \<open>Fault at entry\<close>

text \<open>
  C2. For every target and every LastCommandedDuty: when \<^verbatim>\<open>faultActive()\<close> returns true at
  the entry of \<^verbatim>\<open>safeRampTo\<close>, the call returns after exactly one \<^verbatim>\<open>coast()\<close> and nothing else
  (so no \<^verbatim>\<open>drive()\<close>), and LastCommandedDuty is what it was.
\<close>

theorem fault_at_entry:
  assumes "fst (faultActive cfg w)"
  shows "\<exists>w'. safeRampTo cfg lastPct targetPct w = Some (lastPct, w')
             \<and> trace w' = trace w @ [Coast]
             \<and> coasts (trace w') = coasts (trace w) + 1
             \<and> drives (trace w') = drives (trace w)"
proof -
  obtain f w1 where fa: "faultActive cfg w = (f, w1)"
    by (cases "faultActive cfg w")
  with assms have f by simp
  have tr: "trace w1 = trace w"
    using fa by (auto simp: faultActive_def digitalRead_def split: if_splits)
  have "safeRampTo cfg lastPct targetPct w = Some (lastPct, coast w1)"
    using fa \<open>f\<close> by (simp add: safeRampTo_def Let_def)
  moreover have "trace (coast w1) = trace w @ [Coast]"
    using tr by (simp add: coast_def)
  ultimately show ?thesis by simp
qed

theorem fault_at_entry_witness:
  "fst (faultActive armed (board (\<lambda>k. LOW) (\<lambda>k. 0)))
   \<and> (\<exists>w'. safeRampTo armed 20 75 (board (\<lambda>k. LOW) (\<lambda>k. 0)) = Some (20, w')
            \<and> trace w' = trace (board (\<lambda>k. LOW) (\<lambda>k. 0)) @ [Coast]
            \<and> coasts (trace w') = coasts (trace (board (\<lambda>k. LOW) (\<lambda>k. 0))) + 1
            \<and> drives (trace w') = drives (trace (board (\<lambda>k. LOW) (\<lambda>k. 0))))"
proof -
  have h: "fst (faultActive armed (board (\<lambda>k. LOW) (\<lambda>k. 0)))"
    by (simp add: faultActive_def digitalRead_def armed_def board_def)
  show ?thesis
    using h fault_at_entry [OF h, of 20 75] by simp
qed

section \<open>Over-voltage trip\<close>

text \<open>
  C3. When the sensor is enabled and the voltage read exceeds 28 V, \<^verbatim>\<open>guardOverVoltage\<close> calls
  \<^verbatim>\<open>coastFn()\<close> first, then only waits, in at most 300 delays of 10 ms, and returns true, both
  when a reading cleared the wait and when the 3000 ms ran out. On that report
  \<^verbatim>\<open>safeRampTo\<close> returns with LastCommandedDuty 0 and no \<^verbatim>\<open>drive()\<close> after the trip: none at
  all at entry, and the \<open>i\<close> calls of the iterations before it when the trip comes at the
  re-check of iteration \<open>i + 1\<close>.
\<close>

theorem overvoltage_trip:
  "(ov_at cfg w 0 \<longrightarrow>
      (\<exists>w' p. p \<le> 300 \<and> guardOverVoltage cfg w = (True, w')
         \<and> trace w' = trace w @ Coast # replicate p (Delay 10)
         \<and> clock w' = clock w + of_nat (10 * p)))
   \<and> (\<not> fault_at cfg w 0 \<and> ov_at cfg w 0 \<longrightarrow>
      (\<exists>w' p. p \<le> 300 \<and> safeRampTo cfg L T w = Some (0, w')
         \<and> trace w' = trace w @ Coast # replicate p (Delay 10)))
   \<and> (cast_ok L T \<and> i < ramp_steps L T \<and> quiet cfg w i
        \<and> \<not> fault_at cfg w (Suc i) \<and> ov_at cfg w (Suc i) \<longrightarrow>
      (\<exists>w' p. p \<le> 300 \<and> safeRampTo cfg L T w = Some (0, w')
         \<and> trace w' = trace w @ jump_open (ramp_delta L T)
              @ step_events (ramp_vals i L (ramp_stepSize L T))
              @ Coast # replicate p (Delay 10)
         \<and> drives (trace w') = drives (trace w) @ ramp_vals i L (ramp_stepSize L T)))"
proof (intro conjI impI)
  assume "ov_at cfg w 0"
  from guard_trip_cases [OF this] obtain j p where
    "p \<le> 300" "guardOverVoltage cfg w = (True, tripped j p w)" by blast
  then show "\<exists>w' p. p \<le> 300 \<and> guardOverVoltage cfg w = (True, w')
         \<and> trace w' = trace w @ Coast # replicate p (Delay 10)
         \<and> clock w' = clock w + of_nat (10 * p)"
    by (intro exI [of _ "tripped j p w"] exI [of _ p]) (simp add: tripped_def)
next
  assume "\<not> fault_at cfg w 0 \<and> ov_at cfg w 0"
  then show "\<exists>w' p. p \<le> 300 \<and> safeRampTo cfg L T w = Some (0, w')
         \<and> trace w' = trace w @ Coast # replicate p (Delay 10)"
    using safeRampTo_trip_entry [of cfg w L T] by blast
next
  assume a: "cast_ok L T \<and> i < ramp_steps L T \<and> quiet cfg w i
        \<and> \<not> fault_at cfg w (Suc i) \<and> ov_at cfg w (Suc i)"
  from a safeRampTo_trip_step [of L T i cfg w] obtain w' p where
    r: "p \<le> 300" "safeRampTo cfg L T w = Some (0, w')"
      "trace w' = trace w @ jump_open (ramp_delta L T)
              @ step_events (ramp_vals i L (ramp_stepSize L T))
              @ Coast # replicate p (Delay 10)"
    by blast
  then show "\<exists>w' p. p \<le> 300 \<and> safeRampTo cfg L T w = Some (0, w')
         \<and> trace w' = trace w @ jump_open (ramp_delta L T)
              @ step_events (ramp_vals i L (ramp_stepSize L T))
              @ Coast # replicate p (Delay 10)
         \<and> drives (trace w') = drives (trace w) @ ramp_vals i L (ramp_stepSize L T)"
    by (intro exI [of _ w'] exI [of _ p]) simp
qed

theorem overvoltage_trip_witness:
  "ov_at armed (board (\<lambda>k. HIGH) (\<lambda>k. 2700)) 0
   \<and> (\<exists>w' p. p \<le> 300 \<and> guardOverVoltage armed (board (\<lambda>k. HIGH) (\<lambda>k. 2700)) = (True, w')
         \<and> trace w' = Coast # replicate p (Delay 10))
   \<and> (\<exists>w' p. p \<le> 300 \<and> safeRampTo armed 20 75 (board (\<lambda>k. HIGH) (\<lambda>k. 2700)) = Some (0, w')
         \<and> trace w' = Coast # replicate p (Delay 10))
   \<and> quiet armed (board (\<lambda>k. HIGH) (\<lambda>k. if k = 2 then 2700 else 0)) 1
   \<and> ov_at armed (board (\<lambda>k. HIGH) (\<lambda>k. if k = 2 then 2700 else 0)) 2
   \<and> (\<exists>w'. safeRampTo armed 20 75 (board (\<lambda>k. HIGH) (\<lambda>k. if k = 2 then 2700 else 0))
             = Some (0, w')
         \<and> drives (trace w') = [3000859 / 131072])"
proof -
  let ?a = "board (\<lambda>k. HIGH) (\<lambda>k. 2700)"
  let ?c = "board (\<lambda>k. HIGH) (\<lambda>k. if k = 2 then 2700 else 0)"
  have a: "ov_at armed ?a 0" "\<not> fault_at armed ?a 0"
    by (simp_all add: ov_at_def vbus_at_def fault_at_def volts_2700)
  have c: "quiet armed ?c 1" "\<not> fault_at armed ?c (Suc 1)" "ov_at armed ?c (Suc 1)"
    by (simp_all add: quiet_iff ov_at_def vbus_at_def fault_at_def volts_2700 volts_0)
  have n: "1 < ramp_steps 20 75" by (simp add: steps_20_75)
  note A = overvoltage_trip [of armed ?a 20 75 0]
  note C = overvoltage_trip [of armed ?c 20 75 1]
  have 1: "\<exists>w' p. p \<le> 300 \<and> guardOverVoltage armed ?a = (True, w')
         \<and> trace w' = Coast # replicate p (Delay 10)"
    using A [THEN conjunct1] a by auto
  have 2: "\<exists>w' p. p \<le> 300 \<and> safeRampTo armed 20 75 ?a = Some (0, w')
         \<and> trace w' = Coast # replicate p (Delay 10)"
    using A [THEN conjunct2, THEN conjunct1] a by auto
  have v: "ramp_vals 1 20 (ramp_stepSize 20 75) = [3000859 / 131072]"
    by (simp add: stepSize_20_75 first_step_20_75)
  have 3: "\<exists>w'. safeRampTo armed 20 75 ?c = Some (0, w')
         \<and> drives (trace w') = [3000859 / 131072]"
    using C [THEN conjunct2, THEN conjunct2] c n cast_20_75 unfolding v by auto
  have c2: "ov_at armed ?c 2" using c(3) by (simp add: numeral_2_eq_2)
  show ?thesis using a(1) c(1) c2 1 2 3 by simp
qed

section \<open>Hysteresis of the guard\<close>

text \<open>
  C4. After a trip, as long as every reading of the wait stays at or above 26.5 V (so also in
  the band up to 28 V and at 28 V itself), the guard polls 300 times and waits the whole
  3000 ms. When it leaves the wait before the 3000 ms are over, the reading it took last is
  below 26.5 V (and not negative).
\<close>

theorem hysteresis_hold:
  assumes "ov_at cfg w 0"
  shows "((\<forall>k\<in>{1..300}. VBUS_CLEAR_HYS_VOLTS \<le> vbus_at cfg w k) \<longrightarrow>
            guardOverVoltage cfg w =
              (True, w\<lparr>clock := clock w + 3000, adc_k := adc_k w + 301,
                       trace := trace w @ Coast # replicate 300 (Delay 10)\<rparr>))
     \<and> (\<forall>w'. guardOverVoltage cfg w = (True, w') \<and> clock w' - clock w < 3000 \<longrightarrow>
            adc_k w + 1 < adc_k w' \<and> 0 \<le> volts cfg (adc_in w (adc_k w' - 1))
            \<and> volts cfg (adc_in w (adc_k w' - 1)) < VBUS_CLEAR_HYS_VOLTS)"
proof (intro conjI impI allI)
  assume band: "\<forall>k\<in>{1..300}. VBUS_CLEAR_HYS_VOLTS \<le> vbus_at cfg w k"
  have "\<forall>k<300. \<not> ov_clear (vbus_at cfg w (Suc k))"
  proof (intro allI impI)
    fix k :: nat assume "k < 300"
    then have "Suc k \<in> {1..300}" by simp
    with band have "VBUS_CLEAR_HYS_VOLTS \<le> vbus_at cfg w (Suc k)" by blast
    then show "\<not> ov_clear (vbus_at cfg w (Suc k))" by (simp add: ov_clear_def)
  qed
  from guard_trip_full [OF assms this]
  show "guardOverVoltage cfg w =
          (True, w\<lparr>clock := clock w + 3000, adc_k := adc_k w + 301,
                   trace := trace w @ Coast # replicate 300 (Delay 10)\<rparr>)"
    by (simp add: tripped_def)
next
  fix w' assume "guardOverVoltage cfg w = (True, w') \<and> clock w' - clock w < 3000"
  then show "adc_k w + 1 < adc_k w'" "0 \<le> volts cfg (adc_in w (adc_k w' - 1))"
    "volts cfg (adc_in w (adc_k w' - 1)) < VBUS_CLEAR_HYS_VOLTS"
    using guard_early [OF assms, of w'] by simp_all
qed

theorem hysteresis_hold_witness:
  "ov_at armed (board (\<lambda>k. HIGH) (\<lambda>k. if k = 0 then 2700 else 2455)) 0
   \<and> guardOverVoltage armed (board (\<lambda>k. HIGH) (\<lambda>k. if k = 0 then 2700 else 2455))
       = (True, (board (\<lambda>k. HIGH) (\<lambda>k. if k = 0 then 2700 else 2455))
                 \<lparr>clock := 3000, adc_k := 301, trace := Coast # replicate 300 (Delay 10)\<rparr>)
   \<and> ov_at armed (board (\<lambda>k. HIGH) (\<lambda>k. if k = 0 then 2700 else if k < 3 then 2455 else 2400)) 0
   \<and> guardOverVoltage armed
         (board (\<lambda>k. HIGH) (\<lambda>k. if k = 0 then 2700 else if k < 3 then 2455 else 2400))
       = (True, tripped 4 2
                 (board (\<lambda>k. HIGH) (\<lambda>k. if k = 0 then 2700 else if k < 3 then 2455 else 2400)))
   \<and> volts armed 2400 < VBUS_CLEAR_HYS_VOLTS"
proof -
  let ?a = "board (\<lambda>k. HIGH) (\<lambda>k. if k = 0 then 2700 else 2455)"
  let ?b = "board (\<lambda>k. HIGH) (\<lambda>k. if k = 0 then 2700 else if k < 3 then 2455 else 2400)"
  have a: "ov_at armed ?a 0" by (simp add: ov_at_def vbus_at_def volts_2700)
  have b: "ov_at armed ?b 0" by (simp add: ov_at_def vbus_at_def volts_2700)
  have band: "\<forall>k\<in>{1..300}. VBUS_CLEAR_HYS_VOLTS \<le> vbus_at armed ?a k"
    by (simp add: vbus_at_def volts_2455)
  have 1: "guardOverVoltage armed ?a
       = (True, ?a\<lparr>clock := 3000, adc_k := 301, trace := Coast # replicate 300 (Delay 10)\<rparr>)"
    using hysteresis_hold [OF a, THEN conjunct1] band by simp
  have p1: "\<forall>k<2. \<not> ov_clear (vbus_at armed ?b (Suc k))"
    by (simp add: ov_clear_def vbus_at_def volts_2455)
  have p2: "ov_clear (vbus_at armed ?b (Suc 2))"
    by (simp add: ov_clear_def vbus_at_def volts_2400)
  have 2: "guardOverVoltage armed ?b = (True, tripped 4 2 ?b)"
    using guard_trip_clear [OF b _ p1 p2] by simp
  have "clock (tripped 4 2 ?b) - clock ?b < 3000" by (simp add: tripped_def)
  with hysteresis_hold [OF b, THEN conjunct2, rule_format, of "tripped 4 2 ?b"] 2
  have 3: "volts armed 2400 < VBUS_CLEAR_HYS_VOLTS" by (simp add: tripped_def)
  show ?thesis using a b 1 2 3 by simp
qed

section \<open>Readings of an unavailable sensor\<close>




section \<open>Fault at a re-check\<close>

text \<open>
  C7. When the fault input is first active at the re-check of iteration \<open>i + 1\<close>,
  \<^verbatim>\<open>safeRampTo\<close> calls \<^verbatim>\<open>coast()\<close> and returns, having made the \<open>i\<close> calls of \<^verbatim>\<open>drive()\<close> of the
  iterations before it; LastCommandedDuty is then the duty driven last (the entry value when
  \<open>i = 0\<close>) plus \<^verbatim>\<open>stepSize\<close>, a duty that was never passed to \<^verbatim>\<open>drive()\<close>.
\<close>

theorem fault_abort_keeps_advance:
  assumes "cast_ok L T" and "i < ramp_steps L T" and "quiet cfg w i"
    and "fault_at cfg w (Suc i)"
  shows "\<exists>w'. safeRampTo cfg L T w
             = Some (fadd (last (L # ramp_vals i L (ramp_stepSize L T))) (ramp_stepSize L T), w')
     \<and> trace w' = trace w @ jump_open (ramp_delta L T)
                  @ step_events (ramp_vals i L (ramp_stepSize L T)) @ [Coast]
     \<and> drives (trace w') = drives (trace w) @ ramp_vals i L (ramp_stepSize L T)"
proof -
  from safeRampTo_fault_step [OF assms] obtain w' where
    r: "safeRampTo cfg L T w = Some (ramp_end (Suc i) L (ramp_stepSize L T), w')"
      "trace w' = trace w @ jump_open (ramp_delta L T)
                  @ step_events (ramp_vals i L (ramp_stepSize L T)) @ [Coast]"
    by blast
  have "ramp_end (Suc i) L (ramp_stepSize L T)
        = fadd (last (L # ramp_vals i L (ramp_stepSize L T))) (ramp_stepSize L T)"
    by (simp only: ramp_end_Suc last_Cons_ramp_vals)
  with r show ?thesis by (intro exI [of _ w']) simp
qed

theorem fault_abort_keeps_advance_witness:
  "quiet armed (board (\<lambda>k. if k = 0 then HIGH else LOW) (\<lambda>k. 0)) 0
   \<and> fault_at armed (board (\<lambda>k. if k = 0 then HIGH else LOW) (\<lambda>k. 0)) 1
   \<and> (\<exists>w'. safeRampTo armed 20 75 (board (\<lambda>k. if k = 0 then HIGH else LOW) (\<lambda>k. 0))
             = Some (3000859 / 131072, w')
          \<and> trace w' = [Coast, Delay COAST_BEFORE_JUMP_MS, Coast]
          \<and> drives (trace w') = [])
   \<and> 3000859 / 131072 \<noteq> (20 :: rat)"
proof -
  let ?f = "board (\<lambda>k. if k = 0 then HIGH else LOW) (\<lambda>k. 0)"
  have q: "quiet armed ?f 0"
    by (simp add: quiet_iff ov_at_def vbus_at_def fault_at_def volts_0)
  have f: "fault_at armed ?f (Suc 0)" by (simp add: fault_at_def)
  have n: "0 < ramp_steps 20 75" by simp
  from fault_abort_keeps_advance [OF cast_20_75 n q f] jump_20_75
  have "\<exists>w'. safeRampTo armed 20 75 ?f = Some (3000859 / 131072, w')
          \<and> trace w' = [Coast, Delay COAST_BEFORE_JUMP_MS, Coast]
          \<and> drives (trace w') = []"
    by (simp add: stepSize_20_75 first_step_20_75 jump_open_def)
  then show ?thesis using q f by simp
qed

section \<open>The shipped configuration\<close>

text \<open>
  C9. With the shipped pin numbers, \<open>FAULT_PIN = -1\<close> and \<open>SUPPLY_ADC_PIN = -1\<close>:
  \<^verbatim>\<open>faultActive()\<close> returns false and \<^verbatim>\<open>guardOverVoltage()\<close> returns false, both leaving the board
  as it was (so without a \<^verbatim>\<open>coast()\<close>); every \<^verbatim>\<open>safeRampTo\<close> whose step count fits an \<^verbatim>\<open>int\<close> runs
  all its steps and returns the duty of the last one, never the 0 of a trip; and no loop of a
  phase is left by its \<^verbatim>\<open>break\<close>.
\<close>

theorem shipped_interlocks_inert:
  "faultActive (shipped s3) w = (False, w)
   \<and> guardOverVoltage (shipped s3) w = (False, w)
   \<and> (cast_ok L T \<longrightarrow>
        safeRampTo (shipped s3) L T w
          = Some (ramp_end (ramp_steps L T) L (ramp_stepSize L T),
                  w\<lparr>clock := clock w + of_nat (ramp_ms L T),
                    trace := trace w @ ramp_events L T\<rparr>))
   \<and> (warmup_loop (shipped s3) t0 L w = Some r \<longrightarrow> \<not> fst r)
   \<and> (step_load_loop (shipped s3) t0 hi L w = Some r \<longrightarrow> \<not> fst r)
   \<and> (bursts_loop (shipped s3) t0 L w = Some r \<longrightarrow> \<not> fst r)
   \<and> (soak_loop (shipped s3) t0 L w = Some r \<longrightarrow> \<not> fst r)"
  using warmup_no_break [of s3 t0 L w r] step_load_no_break [of s3 t0 hi L w r]
    bursts_no_break [of s3 t0 L w r] soak_no_break [of s3 t0 L w r]
  by (simp add: safeRampTo_quiet stepped_shipped)

lemma bench_simps [simp]:
  "clock bench = 0" "trace bench = []"
  by (simp_all add: bench_def)

lemma same_42: "safeRampTo (shipped s3) 42 42 w
    = Some (42, w\<lparr>clock := clock w + 18, trace := trace w @ [Drive 42, Delay SLEW_STEP_MS]\<rparr>)"
  using same_shipped [of 42 s3 w] by simp

lemma same_35: "safeRampTo (shipped s3) 35 35 w
    = Some (35, w\<lparr>clock := clock w + 18, trace := trace w @ [Drive 35, Delay SLEW_STEP_MS]\<rparr>)"
  using same_shipped [of 35 s3 w] by simp

lemma same_88: "safeRampTo (shipped s3) 88 88 w
    = Some (88, w\<lparr>clock := clock w + 18, trace := trace w @ [Drive 88, Delay SLEW_STEP_MS]\<rparr>)"
  using same_shipped [of 88 s3 w] by simp

lemma same_68: "safeRampTo (shipped s3) 68 68 w
    = Some (68, w\<lparr>clock := clock w + 18, trace := trace w @ [Drive 68, Delay SLEW_STEP_MS]\<rparr>)"
  using same_shipped [of 68 s3 w] by simp

lemma warmup_last_round:
  "warmup_loop (shipped True) 0 42 (bench\<lparr>clock := 29990\<rparr>)
   = Some (False, 42, bench\<lparr>clock := 30018, trace := [Drive 42, Delay 18, Delay 10]\<rparr>)"
  by (subst warmup_loop.simps, simp add: same_42 millis_def delay_def,
      subst warmup_loop.simps, simp add: millis_def)

lemma step_load_last_round:
  "step_load_loop (shipped True) 0 False 35 (bench\<lparr>clock := 239990\<rparr>)
   = Some (False, 35, bench\<lparr>clock := 240508, trace := [Drive 35, Delay 18, Delay 500]\<rparr>)"
  by (subst step_load_loop.simps, simp add: same_35 millis_def delay_def,
      subst step_load_loop.simps, simp add: millis_def)

lemma bursts_last_round:
  "bursts_loop (shipped True) 0 88 (bench\<lparr>clock := 239990\<rparr>)
   = Some (False, 88, bench\<lparr>clock := 240448,
                        trace := [Coast, Delay 120, Drive 88, Delay 18, Delay 320]\<rparr>)"
  by (subst bursts_loop.simps, simp add: same_88 millis_def delay_def coast_def,
      subst bursts_loop.simps, simp add: millis_def)

lemma soak_last_round:
  "soak_loop (shipped True) 0 68 (bench\<lparr>clock := 599990\<rparr>)
   = Some (False, 68, bench\<lparr>clock := 600028, trace := [Drive 68, Delay 18, Delay 20]\<rparr>)"
  by (subst soak_loop.simps, simp add: same_68 millis_def delay_def,
      subst soak_loop.simps, simp add: millis_def)

theorem shipped_interlocks_inert_witness:
  "faultActive (shipped True) bench = (False, bench)
   \<and> guardOverVoltage (shipped True) bench = (False, bench)
   \<and> cast_ok 0 42
   \<and> safeRampTo (shipped True) 0 42 bench
       = Some (42, bench\<lparr>clock := 402, trace := ramp_events 0 42\<rparr>)
   \<and> (\<exists>r. warmup_loop (shipped True) 0 42 (bench\<lparr>clock := 29990\<rparr>) = Some r \<and> \<not> fst r)
   \<and> (\<exists>r. step_load_loop (shipped True) 0 False 35 (bench\<lparr>clock := 239990\<rparr>) = Some r
          \<and> \<not> fst r)
   \<and> (\<exists>r. bursts_loop (shipped True) 0 88 (bench\<lparr>clock := 239990\<rparr>) = Some r \<and> \<not> fst r)
   \<and> (\<exists>r. soak_loop (shipped True) 0 68 (bench\<lparr>clock := 599990\<rparr>) = Some r \<and> \<not> fst r)"
proof -
  note I = shipped_interlocks_inert [of True bench 0 42]
  have ms: "ramp_ms 0 42 = 402"
    using jump_0_42 by (simp add: ramp_ms_def jump_open_ms_def jump_close_ms_def steps_0_42)
  have 3: "safeRampTo (shipped True) 0 42 bench
       = Some (42, bench\<lparr>clock := 402, trace := ramp_events 0 42\<rparr>)"
    using I [THEN conjunct2, THEN conjunct2, THEN conjunct1] cast_0_42
    by (simp add: steps_0_42 stepSize_0_42 end_0_42 ms)
  have 4: "\<exists>r. warmup_loop (shipped True) 0 42 (bench\<lparr>clock := 29990\<rparr>) = Some r \<and> \<not> fst r"
    using shipped_interlocks_inert [of True "bench\<lparr>clock := 29990\<rparr>" 42 42 0]
    by (simp add: warmup_last_round)
  have 5: "\<exists>r. step_load_loop (shipped True) 0 False 35 (bench\<lparr>clock := 239990\<rparr>) = Some r
          \<and> \<not> fst r"
    using shipped_interlocks_inert [of True "bench\<lparr>clock := 239990\<rparr>" 35 35 0 _ False]
    by (simp add: step_load_last_round)
  have 6: "\<exists>r. bursts_loop (shipped True) 0 88 (bench\<lparr>clock := 239990\<rparr>) = Some r \<and> \<not> fst r"
    using shipped_interlocks_inert [of True "bench\<lparr>clock := 239990\<rparr>" 88 88 0]
    by (simp add: bursts_last_round)
  have 7: "\<exists>r. soak_loop (shipped True) 0 68 (bench\<lparr>clock := 599990\<rparr>) = Some r \<and> \<not> fst r"
    using shipped_interlocks_inert [of True "bench\<lparr>clock := 599990\<rparr>" 68 68 0]
    by (simp add: soak_last_round)
  show ?thesis
    using I [THEN conjunct1] I [THEN conjunct2, THEN conjunct1] cast_0_42 3 4 5 6 7 by simp
qed

end
